theory Spec2Isabelle
  imports Main
begin

section \<open>Characters and strings\<close>

text \<open>
  The module works on Python unicode strings (\<^verbatim>\<open>from __future__ import unicode_literals\<close>).
  A character is modelled by its code point (\<^verbatim>\<open>ord(c)\<close>), a string by the list of its
  characters. \<open>ustr\<close> turns an ASCII literal into such a string.
\<close>

type_synonym uchar = nat
type_synonym ustring = "uchar list"

definition ustr :: "string \<Rightarrow> ustring" where
  "ustr s = map of_char s"

definition DQUOTE :: uchar where
  "DQUOTE = 0x22"

definition BACKSLASH :: uchar where
  "BACKSLASH = 0x5C"

definition NEWLINE :: uchar where
  "NEWLINE = 0x0A"

definition SPACE :: uchar where
  "SPACE = 0x20"

subsection \<open>Character classes of the regular expressions\<close>

text \<open>
  The module is Python 2 code, where a pattern compiled without \<^verbatim>\<open>re.UNICODE\<close>
  (as \<^verbatim>\<open>WORD_RE\<close> and \<^verbatim>\<open>PARAM_RE\<close> are) has the ASCII classes. \<^verbatim>\<open>\s\<close> is then:
  space, tab, newline, carriage return, form feed, vertical tab.
\<close>

definition is_space :: "uchar \<Rightarrow> bool" where
  "is_space c = (c = 0x20 \<or> c = 0x09 \<or> c = 0x0A \<or> c = 0x0D \<or> c = 0x0C \<or> c = 0x0B)"

text \<open>\<^verbatim>\<open>[a-z]\<close>\<close>

definition is_lower :: "uchar \<Rightarrow> bool" where
  "is_lower c = (0x61 \<le> c \<and> c \<le> 0x7A)"

text \<open>\<^verbatim>\<open>[a-z0-9_]\<close>\<close>

definition is_name_char :: "uchar \<Rightarrow> bool" where
  "is_name_char c = (is_lower c \<or> (0x30 \<le> c \<and> c \<le> 0x39) \<or> c = 0x5F)"

text \<open>\<^verbatim>\<open>.\<close> without \<^verbatim>\<open>re.DOTALL\<close>: any character except a newline.\<close>

definition is_dot :: "uchar \<Rightarrow> bool" where
  "is_dot c = (c \<noteq> NEWLINE)"

text \<open>\<^verbatim>\<open>''.join(map(chr, range(0x21)))\<close>: the characters 0x00 to 0x20, both included.\<close>

definition unprintable :: ustring where
  "unprintable = [0 ..< 0x21]"

text \<open>
  \<^verbatim>\<open>[^%(unprintable)s"\\]\<close>. Inside a character class \<^verbatim>\<open>re.VERBOSE\<close> keeps
  whitespace, so every character of \<open>unprintable\<close> is excluded literally.
\<close>

definition is_unquoted_char :: "uchar \<Rightarrow> bool" where
  "is_unquoted_char c = (c \<notin> set unprintable \<and> c \<noteq> DQUOTE \<and> c \<noteq> BACKSLASH)"

text \<open>\<^verbatim>\<open>[^"\\]\<close>\<close>

definition is_quoted_char :: "uchar \<Rightarrow> bool" where
  "is_quoted_char c = (c \<noteq> DQUOTE \<and> c \<noteq> BACKSLASH)"

subsection \<open>Backtracking over a greedy repetition\<close>

text \<open>
  A greedy repetition of a character class, at least \<open>m\<close> times, first takes the
  longest run and gives characters back one by one when what follows in the
  pattern does not match. \<open>greedy_splits\<close> lists the splits of the input in the
  order in which the matcher tries them; \<open>first_some\<close> is the first success.
\<close>

definition greedy_splits :: "(uchar \<Rightarrow> bool) \<Rightarrow> nat \<Rightarrow> ustring \<Rightarrow> (ustring \<times> ustring) list" where
  "greedy_splits P m s =
     map (\<lambda>k. (take k s, drop k s)) (rev [m ..< Suc (length (takeWhile P s))])"

fun first_some :: "('a \<Rightarrow> 'b option) \<Rightarrow> 'a list \<Rightarrow> 'b option" where
  "first_some f [] = None"
| "first_some f (x # xs) = (case f x of Some y \<Rightarrow> Some y | None \<Rightarrow> first_some f xs)"

text \<open>
  \<^verbatim>\<open>$\<close> without \<^verbatim>\<open>re.MULTILINE\<close>: the end of the string, or just before a newline
  that is the last character of the string.
\<close>

definition at_eos :: "ustring \<Rightarrow> bool" where
  "at_eos s = (s = [] \<or> s = [NEWLINE])"

text \<open>
  The common tail of both patterns, \<^verbatim>\<open>(?:\s+|$)(.*)\<close>, on what is left of the input;
  the result is the last group. \<^verbatim>\<open>(.*)\<close> matches any run without a newline, also
  the empty one, and \<^verbatim>\<open>match\<close> does not ask for the end of the input after it, so
  the first attempt (the longest run of whitespace, then the longest run of
  \<^verbatim>\<open>.\<close>) always succeeds and nothing is given back.
\<close>

definition sep_rest :: "ustring \<Rightarrow> ustring option" where
  "sep_rest s =
     (case s of
        c # cs \<Rightarrow>
          if is_space c then Some (takeWhile is_dot (dropWhile is_space s))
          else if at_eos s then Some (takeWhile is_dot s)
          else None
      | [] \<Rightarrow> Some [])"

section \<open>The tokenizer\<close>

subsection \<open>\<^verbatim>\<open>WORD_RE\<close>\<close>

text \<open>
  \<^verbatim>\<open>WORD_RE.match(line)\<close> for
  \<^verbatim>\<open>^([a-z][a-z0-9_]*)(?:\s+|$)(.*)\<close>: the groups (command, remainder), or None.
\<close>

definition WORD_RE_match :: "ustring \<Rightarrow> (ustring \<times> ustring) option" where
  "WORD_RE_match line =
     (case line of
        [] \<Rightarrow> None
      | c # cs \<Rightarrow>
          if is_lower c
          then first_some
                 (\<lambda>(name, rest). map_option (\<lambda>remainder. (c # name, remainder)) (sep_rest rest))
                 (greedy_splits is_name_char 0 cs)
          else None)"

subsection \<open>\<^verbatim>\<open>PARAM_RE\<close>\<close>

text \<open>
  The quoted alternative after its opening quote:
  \<^verbatim>\<open>([^"\\]*(?:\\.[^"\\]*)*)"\<close>. The result is the group and what follows the
  closing quote. Read from the left, each character decides its own role: a
  backslash can only start \<^verbatim>\<open>\\.\<close>, a quote can only be the closing one, any
  other character can only belong to a \<^verbatim>\<open>[^"\\]*\<close>; so the expression matches in
  at most one way and backtracking finds no other.
\<close>

fun quoted_body :: "ustring \<Rightarrow> (ustring \<times> ustring) option" where
  "quoted_body [] = None"
| "quoted_body (c # cs) =
     (if c = DQUOTE then Some ([], cs)
      else if c = BACKSLASH then
        (case cs of
           [] \<Rightarrow> None
         | d # ds \<Rightarrow>
             if is_dot d
             then map_option (\<lambda>(q, after). (c # d # q, after)) (quoted_body ds)
             else None)
      else map_option (\<lambda>(q, after). (c # q, after)) (quoted_body cs))"

text \<open>
  \<^verbatim>\<open>PARAM_RE.match(remainder)\<close>: the groups (unquoted, quoted, remainder), or None.
  The unquoted alternative is tried first, from its longest run down to one
  character; the quoted alternative is tried when it fails.
\<close>

definition unquoted_alt :: "ustring \<Rightarrow> (ustring option \<times> ustring option \<times> ustring) option" where
  "unquoted_alt s =
     first_some
       (\<lambda>(unquoted, rest). map_option (\<lambda>remainder. (Some unquoted, None, remainder)) (sep_rest rest))
       (greedy_splits is_unquoted_char 1 s)"

definition quoted_alt :: "ustring \<Rightarrow> (ustring option \<times> ustring option \<times> ustring) option" where
  "quoted_alt s =
     (case s of
        [] \<Rightarrow> None
      | c # cs \<Rightarrow>
          if c = DQUOTE then
            (case quoted_body cs of
               None \<Rightarrow> None
             | Some (quoted, after) \<Rightarrow>
                 map_option (\<lambda>remainder. (None, Some quoted, remainder)) (sep_rest after))
          else None)"

definition PARAM_RE_match :: "ustring \<Rightarrow> (ustring option \<times> ustring option \<times> ustring) option" where
  "PARAM_RE_match s =
     (case unquoted_alt s of
        Some groups \<Rightarrow> Some groups
      | None \<Rightarrow> quoted_alt s)"

subsection \<open>\<^verbatim>\<open>UNESCAPE_RE\<close>\<close>

text \<open>
  \<^verbatim>\<open>UNESCAPE_RE.sub(r'\g<1>', s)\<close> for \<^verbatim>\<open>\\(.)\<close>: from the left, each backslash
  followed by a character other than a newline is replaced by that character.
\<close>

fun UNESCAPE_RE_sub :: "ustring \<Rightarrow> ustring" where
  "UNESCAPE_RE_sub (b # d # t) =
     (if b = BACKSLASH \<and> is_dot d then d # UNESCAPE_RE_sub t
      else b # UNESCAPE_RE_sub (d # t))"
| "UNESCAPE_RE_sub s = s"

subsection \<open>\<^verbatim>\<open>tokenize\<close>\<close>

text \<open>
  Both failures of \<open>tokenize\<close> are raised as \<^verbatim>\<open>Exception('Invalid command')\<close> and
  \<^verbatim>\<open>Exception('Invalid parameter')\<close>. \<open>Type_error\<close> is what
  \<^verbatim>\<open>UNESCAPE_RE.sub\<close> raises on None, should both groups be empty.
\<close>

datatype error = Invalid_command | Invalid_parameter | Type_error

text \<open>\<^verbatim>\<open>unquoted or UNESCAPE_RE.sub(r'\g<1>', quoted)\<close>\<close>

definition param_value :: "ustring option \<Rightarrow> ustring option \<Rightarrow> error + ustring" where
  "param_value unquoted quoted =
     (let unescaped = (case quoted of
                         None \<Rightarrow> Inl Type_error
                       | Some q \<Rightarrow> Inr (UNESCAPE_RE_sub q))
      in case unquoted of
           None \<Rightarrow> unescaped
         | Some u \<Rightarrow> if u = [] then unescaped else Inr u)"

subsection \<open>What backtracking can find\<close>

text \<open>
  A character of a command name or of an unquoted token is no whitespace, so
  after a shortened run the separator \<^verbatim>\<open>(?:\s+|$)\<close> never matches: only the
  longest run can succeed.
\<close>

lemma is_unquoted_char_iff: "is_unquoted_char c \<longleftrightarrow> 0x20 < c \<and> c \<noteq> 0x22 \<and> c \<noteq> 0x5C"
  by (auto simp: is_unquoted_char_def unprintable_def DQUOTE_def BACKSLASH_def)

lemma first_some_None: "(\<forall>x\<in>set xs. f x = None) \<Longrightarrow> first_some f xs = None"
  by (induction xs) auto

lemma first_some_greedy:
  assumes "m \<le> length (takeWhile P s)"
    and "\<And>k. m \<le> k \<Longrightarrow> k < length (takeWhile P s) \<Longrightarrow> f (take k s, drop k s) = None"
  shows "first_some f (greedy_splits P m s) = f (takeWhile P s, dropWhile P s)"
proof -
  let ?n = "length (takeWhile P s)"
  have r: "rev [m ..< Suc ?n] = ?n # rev [m ..< ?n]"
    using assms(1) by simp
  have tk: "take ?n s = takeWhile P s"
    by (metis append_eq_conv_conj takeWhile_dropWhile_id)
  have dr: "drop ?n s = dropWhile P s"
    by (metis append_eq_conv_conj takeWhile_dropWhile_id)
  have none: "first_some f (map (\<lambda>k. (take k s, drop k s)) (rev [m ..< ?n])) = None"
    by (rule first_some_None) (auto simp: assms(2))
  show ?thesis
    unfolding greedy_splits_def r
    by (simp add: tk dr none split: option.splits)
qed

lemma first_some_greedy_short:
  "length (takeWhile P s) < m \<Longrightarrow> first_some f (greedy_splits P m s) = None"
  by (simp add: greedy_splits_def)

lemma sep_rest_inside_run:
  assumes "\<And>c. P c \<Longrightarrow> \<not> is_space c" and "k < length (takeWhile P s)"
  shows "sep_rest (drop k s) = None"
proof -
  have k: "k < length s"
    using assms(2) length_takeWhile_le [of P s] by (meson less_le_trans)
  have "P (s ! k)"
    using assms(2) by (metis nth_mem set_takeWhileD takeWhile_nth)
  then have ns: "\<not> is_space (s ! k)"
    by (rule assms(1))
  then have nn: "s ! k \<noteq> NEWLINE"
    by (auto simp: is_space_def NEWLINE_def)
  have d: "drop k s = s ! k # drop (Suc k) s"
    using k by (simp add: Cons_nth_drop_Suc)
  show ?thesis
    using ns nn by (simp add: d sep_rest_def at_eos_def)
qed

lemma name_char_not_space: "is_name_char c \<Longrightarrow> \<not> is_space c"
  by (auto simp: is_name_char_def is_lower_def is_space_def)

lemma unquoted_char_not_space: "is_unquoted_char c \<Longrightarrow> \<not> is_space c"
  by (auto simp: is_unquoted_char_iff is_space_def)

lemma sep_rest_inside_name:
  "k < length (takeWhile is_name_char s) \<Longrightarrow> sep_rest (drop k s) = None"
  by (rule sep_rest_inside_run [of is_name_char]) (simp_all add: name_char_not_space)

lemma sep_rest_inside_unquoted:
  "k < length (takeWhile is_unquoted_char s) \<Longrightarrow> sep_rest (drop k s) = None"
  by (rule sep_rest_inside_run [of is_unquoted_char]) (simp_all add: unquoted_char_not_space)

lemma WORD_RE_match_eq:
  "WORD_RE_match line =
     (case line of
        [] \<Rightarrow> None
      | c # cs \<Rightarrow>
          if is_lower c
          then map_option (\<lambda>remainder. (c # takeWhile is_name_char cs, remainder))
                 (sep_rest (dropWhile is_name_char cs))
          else None)"
proof (cases line)
  case Nil
  then show ?thesis by (simp add: WORD_RE_match_def)
next
  case (Cons c cs)
  have "first_some
          (\<lambda>(name, rest). map_option (\<lambda>remainder. (c # name, remainder)) (sep_rest rest))
          (greedy_splits is_name_char 0 cs)
        = map_option (\<lambda>remainder. (c # takeWhile is_name_char cs, remainder))
            (sep_rest (dropWhile is_name_char cs))"
    by (subst first_some_greedy) (simp_all add: sep_rest_inside_name)
  then show ?thesis
    by (simp add: WORD_RE_match_def Cons)
qed

lemma unquoted_alt_eq:
  "unquoted_alt s =
     (if takeWhile is_unquoted_char s = [] then None
      else map_option (\<lambda>remainder. (Some (takeWhile is_unquoted_char s), None, remainder))
             (sep_rest (dropWhile is_unquoted_char s)))"
proof (cases "takeWhile is_unquoted_char s = []")
  case True
  then show ?thesis
    by (simp add: unquoted_alt_def first_some_greedy_short)
next
  case False
  then have "1 \<le> length (takeWhile is_unquoted_char s)"
    by (cases "takeWhile is_unquoted_char s") simp_all
  then have "first_some
          (\<lambda>(unquoted, rest). map_option (\<lambda>remainder. (Some unquoted, None, remainder)) (sep_rest rest))
          (greedy_splits is_unquoted_char 1 s)
        = map_option (\<lambda>remainder. (Some (takeWhile is_unquoted_char s), None, remainder))
             (sep_rest (dropWhile is_unquoted_char s))"
    by (subst first_some_greedy) (simp_all add: sep_rest_inside_unquoted)
  then show ?thesis
    using False by (simp add: unquoted_alt_def)
qed

lemma length_takeWhile_dropWhile_le:
  "length (takeWhile P (dropWhile Q s)) \<le> length s"
  by (rule le_trans [OF length_takeWhile_le length_dropWhile_le])

lemma sep_rest_length: "sep_rest s = Some r \<Longrightarrow> length r \<le> length s"
proof (cases s)
  case Nil
  then show "sep_rest s = Some r \<Longrightarrow> length r \<le> length s"
    by (simp add: sep_rest_def)
next
  case (Cons c cs)
  assume "sep_rest s = Some r"
  then have "r = takeWhile is_dot (dropWhile is_space s) \<or> r = takeWhile is_dot s"
    by (auto simp: sep_rest_def Cons split: if_splits)
  then show "length r \<le> length s"
    using length_takeWhile_dropWhile_le [of is_dot is_space s] length_takeWhile_le [of is_dot s]
    by auto
qed

lemma quoted_body_length: "quoted_body s = Some (q, after) \<Longrightarrow> length after < length s"
proof (induction s arbitrary: q rule: quoted_body.induct)
  case 1
  then show ?case by simp
next
  case (2 c cs)
  then show ?case
    by (fastforce split: if_splits list.splits)
qed

lemma PARAM_RE_match_length:
  assumes "PARAM_RE_match s = Some (unquoted, quoted, r)"
  shows "length r < length s"
proof (cases "unquoted_alt s")
  case (Some g)
  then have ne: "takeWhile is_unquoted_char s \<noteq> []"
    and sr: "sep_rest (dropWhile is_unquoted_char s) = Some r"
    using assms by (auto simp: PARAM_RE_match_def unquoted_alt_eq split: if_splits)
  have "length (dropWhile is_unquoted_char s) < length s"
    using ne by (cases s) (auto simp: le_imp_less_Suc length_dropWhile_le split: if_splits)
  then show ?thesis
    using sep_rest_length [OF sr] by simp
next
  case None
  then have "quoted_alt s = Some (unquoted, quoted, r)"
    using assms by (simp add: PARAM_RE_match_def)
  then obtain cs q after where s: "s = DQUOTE # cs" and qb: "quoted_body cs = Some (q, after)"
    and sr: "sep_rest after = Some r"
    by (auto simp: quoted_alt_def split: list.splits if_splits option.splits)
  show ?thesis
    using quoted_body_length [OF qb] sep_rest_length [OF sr] by (simp add: s)
qed

subsection \<open>The loop\<close>

text \<open>
  \<^verbatim>\<open>while remainder: ...\<close> with the list \<open>result\<close> built so far. Each match of
  \<^verbatim>\<open>PARAM_RE\<close> leaves a shorter remainder, which is the measure.
\<close>

function tokenize_loop :: "ustring list \<Rightarrow> ustring \<Rightarrow> error + ustring list" where
  "tokenize_loop result remainder =
     (if remainder = [] then Inr result
      else case PARAM_RE_match remainder of
             None \<Rightarrow> Inl Invalid_parameter
           | Some (unquoted, quoted, remainder') \<Rightarrow>
               (case param_value unquoted quoted of
                  Inl e \<Rightarrow> Inl e
                | Inr v \<Rightarrow> tokenize_loop (result @ [v]) remainder'))"
  by pat_completeness auto
termination
  by (relation "measure (\<lambda>(result, remainder). length remainder)")
     (auto dest: PARAM_RE_match_length)

declare tokenize_loop.simps [simp del]

definition tokenize :: "ustring \<Rightarrow> error + ustring list" where
  "tokenize line =
     (case WORD_RE_match line of
        None \<Rightarrow> Inl Invalid_command
      | Some (command, remainder) \<Rightarrow> tokenize_loop [command] remainder)"

section \<open>Properties of the tokenizer\<close>

subsection \<open>Groups of a match, failures, number of tokens\<close>

lemma PARAM_RE_match_cases:
  assumes "PARAM_RE_match s = Some (u, q, r)"
  obtains (unquoted) "u = Some (takeWhile is_unquoted_char s)"
      "takeWhile is_unquoted_char s \<noteq> []" "q = None"
      "sep_rest (dropWhile is_unquoted_char s) = Some r"
  | (quoted) cs body after where "s = DQUOTE # cs" "u = None" "q = Some body"
      "quoted_body cs = Some (body, after)" "sep_rest after = Some r"
proof (cases "unquoted_alt s")
  case (Some g)
  then show ?thesis
    using assms unquoted
    by (auto simp: PARAM_RE_match_def unquoted_alt_eq split: if_splits)
next
  case None
  then have "quoted_alt s = Some (u, q, r)"
    using assms by (simp add: PARAM_RE_match_def)
  then show ?thesis
    using quoted
    by (auto simp: quoted_alt_def split: list.splits if_splits option.splits)
qed

lemma param_value_defined:
  assumes "PARAM_RE_match s = Some (u, q, r)"
  shows "\<exists>v. param_value u q = Inr v"
  using assms by (cases rule: PARAM_RE_match_cases) (simp_all add: param_value_def)

lemma tokenize_loop_errors:
  "tokenize_loop result remainder = Inl e \<Longrightarrow> e = Invalid_parameter"
proof (induction result remainder rule: tokenize_loop.induct)
  case (1 result remainder)
  show ?case
  proof (cases "PARAM_RE_match remainder")
    case None
    then show ?thesis
      using "1.prems" by (simp add: tokenize_loop.simps [of result remainder] split: if_splits)
  next
    case (Some g)
    obtain u q r where g: "g = (u, q, r)"
      by (cases g)
    obtain v where v: "param_value u q = Inr v"
      using param_value_defined Some g by blast
    have ne: "remainder \<noteq> []"
      using "1.prems" by (auto simp: tokenize_loop.simps [of result remainder])
    have "tokenize_loop (result @ [v]) r = Inl e"
      using "1.prems" ne by (simp add: tokenize_loop.simps [of result remainder] Some g v)
    then show ?thesis
      using "1.IH" [OF ne Some g [symmetric] refl v] by simp
  qed
qed

lemma tokenize_loop_count:
  "tokenize_loop result remainder = Inr tokens \<Longrightarrow> length tokens \<le> length result + length remainder"
proof (induction result remainder rule: tokenize_loop.induct)
  case (1 result remainder)
  show ?case
  proof (cases "remainder = []")
    case True
    then show ?thesis
      using "1.prems" by (simp add: tokenize_loop.simps [of result "[]"])
  next
    case ne: False
    then obtain u q r where m: "PARAM_RE_match remainder = Some (u, q, r)"
      using "1.prems" by (cases "PARAM_RE_match remainder") (auto simp: tokenize_loop.simps [of result remainder])
    obtain v where v: "param_value u q = Inr v"
      using param_value_defined m by blast
    have "tokenize_loop (result @ [v]) r = Inr tokens"
      using "1.prems" ne by (simp add: tokenize_loop.simps [of result remainder] m v)
    then have "length tokens \<le> length (result @ [v]) + length r"
      using "1.IH" [OF ne m refl refl v] by simp
    then show ?thesis
      using PARAM_RE_match_length [OF m] by simp
  qed
qed

lemma WORD_RE_match_length:
  "WORD_RE_match line = Some (command, remainder) \<Longrightarrow> length remainder < length line"
  by (auto simp: WORD_RE_match_eq split: list.splits if_splits dest!: sep_rest_length
      intro: le_imp_less_Suc le_trans [OF _ length_dropWhile_le])

lemma ustr_simps: "ustr [] = []" "ustr (c # cs) = of_char c # ustr cs"
  by (simp_all add: ustr_def)

subsection \<open>Plain arguments\<close>

text \<open>\<^verbatim>\<open>" ".join(A)\<close>\<close>

fun join_space :: "ustring list \<Rightarrow> ustring" where
  "join_space [] = []"
| "join_space [a] = a"
| "join_space (a # b # bs) = a @ SPACE # join_space (b # bs)"

text \<open>A command name: a string matching \<^verbatim>\<open>[a-z][a-z0-9_]*\<close>.\<close>

definition is_command_name :: "ustring \<Rightarrow> bool" where
  "is_command_name n = (case n of [] \<Rightarrow> False | c # cs \<Rightarrow> is_lower c \<and> list_all is_name_char cs)"

text \<open>
  A plain token: not empty, every character printable (not below 0x20) and
  none of them whitespace, the double quote or the backslash.
\<close>

definition is_plain_char :: "uchar \<Rightarrow> bool" where
  "is_plain_char c = (\<not> c < 0x20 \<and> \<not> is_space c \<and> c \<noteq> DQUOTE \<and> c \<noteq> BACKSLASH)"

definition is_plain_token :: "ustring \<Rightarrow> bool" where
  "is_plain_token a = (a \<noteq> [] \<and> list_all is_plain_char a)"

lemma plain_char_unquoted: "is_plain_char c \<Longrightarrow> is_unquoted_char c"
  by (auto simp: is_plain_char_def is_unquoted_char_iff is_space_def DQUOTE_def BACKSLASH_def)

lemma plain_char_dot: "is_plain_char c \<Longrightarrow> is_dot c"
  by (auto simp: is_plain_char_def is_dot_def NEWLINE_def)

lemma plain_char_not_space: "is_plain_char c \<Longrightarrow> \<not> is_space c"
  by (simp add: is_plain_char_def)

text \<open>A remainder that the separator hands on unchanged.\<close>

definition clean :: "ustring \<Rightarrow> bool" where
  "clean r = (list_all is_dot r \<and> (case r of [] \<Rightarrow> True | c # cs \<Rightarrow> \<not> is_space c))"

lemma takeWhile_all: "list_all P xs \<Longrightarrow> takeWhile P xs = xs"
  by (induction xs) auto

lemma sep_rest_space_clean: "clean r \<Longrightarrow> sep_rest (SPACE # r) = Some r"
  by (cases r) (auto simp: sep_rest_def clean_def is_space_def SPACE_def takeWhile_all)

lemma sep_rest_Nil: "sep_rest [] = Some []"
  by (simp add: sep_rest_def)

lemma not_unquoted_SPACE: "\<not> is_unquoted_char SPACE"
  by (simp add: is_unquoted_char_iff SPACE_def)

lemma not_name_char_SPACE: "\<not> is_name_char SPACE"
  by (simp add: is_name_char_def is_lower_def SPACE_def)

lemma takeWhile_run: "list_all P xs \<Longrightarrow> \<not> P y \<Longrightarrow> takeWhile P (xs @ y # ys) = xs"
  by (induction xs) auto

lemma dropWhile_run: "list_all P xs \<Longrightarrow> \<not> P y \<Longrightarrow> dropWhile P (xs @ y # ys) = y # ys"
  by (induction xs) auto

lemma dropWhile_all: "list_all P xs \<Longrightarrow> dropWhile P xs = []"
  by (induction xs) auto

lemma PARAM_RE_match_plain_last:
  assumes "is_plain_token a"
  shows "PARAM_RE_match a = Some (Some a, None, [])"
proof -
  have u: "list_all is_unquoted_char a" and ne: "a \<noteq> []"
    using assms by (auto simp: is_plain_token_def list_all_iff plain_char_unquoted)
  show ?thesis
    using ne by (simp add: PARAM_RE_match_def unquoted_alt_eq takeWhile_all [OF u]
        dropWhile_all [OF u] sep_rest_Nil)
qed

lemma PARAM_RE_match_plain_more:
  assumes "is_plain_token a" and "clean r"
  shows "PARAM_RE_match (a @ SPACE # r) = Some (Some a, None, r)"
proof -
  have u: "list_all is_unquoted_char a" and ne: "a \<noteq> []"
    using assms(1) by (auto simp: is_plain_token_def list_all_iff plain_char_unquoted)
  show ?thesis
    using ne by (simp add: PARAM_RE_match_def unquoted_alt_eq
        takeWhile_run [OF u not_unquoted_SPACE] dropWhile_run [OF u not_unquoted_SPACE]
        sep_rest_space_clean [OF assms(2)])
qed

lemma plain_token_clean: "is_plain_token a \<Longrightarrow> list_all is_dot a \<and> \<not> is_space (hd a) \<and> a \<noteq> []"
  by (cases a) (auto simp: is_plain_token_def list_all_iff plain_char_dot plain_char_not_space)

lemma clean_join_space:
  "list_all is_plain_token A \<Longrightarrow> clean (join_space A)"
proof (induction A rule: join_space.induct)
  case 1
  then show ?case by (simp add: clean_def)
next
  case (2 a)
  then show ?case
    using plain_token_clean [of a] by (cases a) (auto simp: clean_def)
next
  case (3 a b bs)
  then have "clean (join_space (b # bs))"
    by simp
  then show ?case
    using plain_token_clean [of a] 3(2)
    by (cases a) (auto simp: clean_def is_dot_def SPACE_def NEWLINE_def)
qed

lemma param_value_unquoted: "a \<noteq> [] \<Longrightarrow> param_value (Some a) None = Inr a"
  by (simp add: param_value_def)

lemma tokenize_loop_join_space:
  "list_all is_plain_token A \<Longrightarrow> tokenize_loop result (join_space A) = Inr (result @ A)"
proof (induction A arbitrary: result rule: join_space.induct)
  case 1
  then show ?case
    by (simp add: tokenize_loop.simps [of result "[]"])
next
  case (2 a)
  then have a: "is_plain_token a"
    by simp
  then have ne: "a \<noteq> []"
    by (simp add: is_plain_token_def)
  show ?case
    using ne by (simp add: tokenize_loop.simps [of result a] PARAM_RE_match_plain_last [OF a]
        param_value_unquoted tokenize_loop.simps [of "result @ [a]" "[]"])
next
  case (3 a b bs)
  then have a: "is_plain_token a" and r: "list_all is_plain_token (b # bs)"
    by simp_all
  have ne: "a \<noteq> []"
    using a by (simp add: is_plain_token_def)
  have m: "PARAM_RE_match (a @ SPACE # join_space (b # bs)) = Some (Some a, None, join_space (b # bs))"
    by (rule PARAM_RE_match_plain_more [OF a clean_join_space [OF r]])
  have "tokenize_loop result (a @ SPACE # join_space (b # bs))
        = tokenize_loop (result @ [a]) (join_space (b # bs))"
    by (simp add: tokenize_loop.simps [of result "a @ SPACE # join_space (b # bs)"] m
        param_value_unquoted [OF ne])
  then show ?case
    using "3.IH" [OF r, of "result @ [a]"] by simp
qed

lemma WORD_RE_match_name_only:
  assumes "is_command_name n"
  shows "WORD_RE_match n = Some (n, [])"
proof -
  obtain c cs where n: "n = c # cs" and c: "is_lower c" and cs: "list_all is_name_char cs"
    using assms by (cases n) (auto simp: is_command_name_def)
  show ?thesis
    by (simp add: WORD_RE_match_eq n c takeWhile_all [OF cs] dropWhile_all [OF cs] sep_rest_Nil)
qed

lemma WORD_RE_match_name_space:
  assumes "is_command_name n" and "clean r"
  shows "WORD_RE_match (n @ SPACE # r) = Some (n, r)"
proof -
  obtain c cs where n: "n = c # cs" and c: "is_lower c" and cs: "list_all is_name_char cs"
    using assms(1) by (cases n) (auto simp: is_command_name_def)
  show ?thesis
    by (simp add: WORD_RE_match_eq n c takeWhile_run [OF cs not_name_char_SPACE]
        dropWhile_run [OF cs not_name_char_SPACE] sep_rest_space_clean [OF assms(2)])
qed

text \<open>
  Claim C1. For every command name \<open>n\<close> matching \<^verbatim>\<open>[a-z][a-z0-9_]*\<close> and every list
  \<open>A\<close> of plain tokens (not empty, all characters printable, none whitespace, a
  double quote or a backslash), \<open>tokenize\<close> on \<open>n\<close>, one space and the tokens of
  \<open>A\<close> joined by single spaces returns the command \<open>n\<close> followed by exactly the
  arguments \<open>A\<close>; and \<open>tokenize\<close> on \<open>n\<close> alone returns \<open>n\<close> with no argument.
\<close>

theorem tokenize_plain_arguments:
  assumes "is_command_name n" and "list_all is_plain_token A"
  shows "tokenize (n @ SPACE # join_space A) = Inr (n # A) \<and> tokenize n = Inr [n]"
proof -
  have "tokenize (n @ SPACE # join_space A) = tokenize_loop [n] (join_space A)"
    by (simp add: tokenize_def WORD_RE_match_name_space [OF assms(1) clean_join_space [OF assms(2)]])
  moreover have "tokenize n = Inr [n]"
    by (simp add: tokenize_def WORD_RE_match_name_only [OF assms(1)] tokenize_loop.simps [of "[n]" "[]"])
  ultimately show ?thesis
    by (simp add: tokenize_loop_join_space [OF assms(2)])
qed

theorem tokenize_plain_arguments_witness:
  "is_command_name (ustr ''add_id'') \<and> list_all is_plain_token [ustr ''file:a.mp3'', ustr ''7'']
   \<and> tokenize (ustr ''add_id file:a.mp3 7'') = Inr [ustr ''add_id'', ustr ''file:a.mp3'', ustr ''7'']
   \<and> tokenize (ustr ''add_id'') = Inr [ustr ''add_id'']"
proof -
  have n: "is_command_name (ustr ''add_id'')"
    by code_simp
  have A: "list_all is_plain_token [ustr ''file:a.mp3'', ustr ''7'']"
    by code_simp
  have l: "ustr ''add_id'' @ SPACE # join_space [ustr ''file:a.mp3'', ustr ''7''] = ustr ''add_id file:a.mp3 7''"
    by code_simp
  show ?thesis
    using tokenize_plain_arguments [OF n A] n A by (simp only: l simp_thms)
qed

subsection \<open>Unquoted tokens\<close>

text \<open>
  The class of characters that the comment beside \<^verbatim>\<open>PARAM_RE\<close> describes
  (\<^verbatim>\<open>ord(char) < 0x20, not ", not backslash\<close> excluded), and the class that the
  pattern has.
\<close>

definition commented_unquoted_char :: "uchar \<Rightarrow> bool" where
  "commented_unquoted_char c = (\<not> c < 0x20 \<and> c \<noteq> DQUOTE \<and> c \<noteq> BACKSLASH)"

definition above_space_char :: "uchar \<Rightarrow> bool" where
  "above_space_char c = (0x20 < c \<and> c \<noteq> DQUOTE \<and> c \<noteq> BACKSLASH)"

lemma is_unquoted_char_above_space: "is_unquoted_char = above_space_char"
  by (rule ext) (simp add: is_unquoted_char_iff above_space_char_def DQUOTE_def BACKSLASH_def)

text \<open>
  The space character is not below 0x20, yet it ends an unquoted token: in
  \<^verbatim>\<open>a b\<close> the token is \<^verbatim>\<open>a\<close>, not the longest run of characters that are not
  below 0x20, a quote or a backslash, and \<^verbatim>\<open>cmd a b\<close> has two arguments.
\<close>

theorem unquoted_token_space_counterexample:
  "commented_unquoted_char SPACE
   \<and> takeWhile commented_unquoted_char (ustr ''a b'') = ustr ''a b''
   \<and> PARAM_RE_match (ustr ''a b'') = Some (Some (ustr ''a''), None, ustr ''b'')
   \<and> tokenize (ustr ''cmd a b'') = Inr [ustr ''cmd'', ustr ''a'', ustr ''b'']"
  by code_simp

text \<open>
  Claim C3, amended. An unquoted token matched by \<^verbatim>\<open>PARAM_RE\<close> is the longest run,
  from the start of the remainder, of characters whose ordinal value is above
  0x20 and that are neither the double quote nor the backslash; it is not empty
  and the quoted group is None. Every such character is accepted in an unquoted
  token, and these are the characters of the pattern's class: the characters
  0x00 to 0x20, the space included, are excluded.
\<close>

theorem unquoted_token_longest_run:
  "(PARAM_RE_match s = Some (Some unquoted, quoted, remainder) \<longrightarrow>
      unquoted = takeWhile above_space_char s \<and> unquoted \<noteq> [] \<and> quoted = None)
   \<and> (a \<noteq> [] \<and> list_all above_space_char a \<longrightarrow> PARAM_RE_match a = Some (Some a, None, []))
   \<and> (is_unquoted_char c \<longleftrightarrow> above_space_char c)"
proof (intro conjI impI)
  assume m: "PARAM_RE_match s = Some (Some unquoted, quoted, remainder)"
  then show "unquoted = takeWhile above_space_char s"
    by (cases rule: PARAM_RE_match_cases) (simp_all add: is_unquoted_char_above_space)
  from m show "unquoted \<noteq> []"
    by (cases rule: PARAM_RE_match_cases) simp_all
  from m show "quoted = None"
    by (cases rule: PARAM_RE_match_cases) simp_all
next
  assume a: "a \<noteq> [] \<and> list_all above_space_char a"
  then have u: "list_all is_unquoted_char a"
    by (simp add: is_unquoted_char_above_space)
  show "PARAM_RE_match a = Some (Some a, None, [])"
    using a by (simp add: PARAM_RE_match_def unquoted_alt_eq takeWhile_all [OF u]
        dropWhile_all [OF u] sep_rest_Nil)
next
  show "is_unquoted_char c \<longleftrightarrow> above_space_char c"
    by (simp add: is_unquoted_char_above_space)
qed

theorem unquoted_token_longest_run_witness:
  "PARAM_RE_match (ustr ''a!b c'') = Some (Some (ustr ''a!b''), None, ustr ''c'')
   \<and> ustr ''a!b'' = takeWhile above_space_char (ustr ''a!b c'')
   \<and> ustr ''a!b'' \<noteq> [] \<and> list_all above_space_char (ustr ''a!b'')
   \<and> PARAM_RE_match (ustr ''a!b'') = Some (Some (ustr ''a!b''), None, [])"
proof -
  have m: "PARAM_RE_match (ustr ''a!b c'') = Some (Some (ustr ''a!b''), None, ustr ''c'')"
    by code_simp
  have a: "ustr ''a!b'' \<noteq> [] \<and> list_all above_space_char (ustr ''a!b'')"
    by code_simp
  show ?thesis
    using unquoted_token_longest_run
      [of "ustr ''a!b c''" "ustr ''a!b''" None "ustr ''c''" "ustr ''a!b''" 0] m a
    by blast
qed

subsection \<open>Quoted tokens\<close>

lemma not_unquoted_DQUOTE: "\<not> is_unquoted_char DQUOTE"
  by (simp add: is_unquoted_char_def)

lemma PARAM_RE_match_quoted:
  "PARAM_RE_match (DQUOTE # cs) =
     (case quoted_body cs of
        None \<Rightarrow> None
      | Some (quoted, after) \<Rightarrow>
          map_option (\<lambda>remainder. (None, Some quoted, remainder)) (sep_rest after))"
  by (simp add: PARAM_RE_match_def unquoted_alt_eq quoted_alt_def not_unquoted_DQUOTE)

lemma tokenize_one_quoted:
  assumes n: "is_command_name n"
    and qb: "quoted_body (body @ [DQUOTE]) = Some (body, [])"
    and nl: "NEWLINE \<notin> set body"
  shows "tokenize (n @ SPACE # DQUOTE # body @ [DQUOTE]) = Inr [n, UNESCAPE_RE_sub body]"
proof -
  have "clean (DQUOTE # body @ [DQUOTE])"
    using nl by (auto simp: clean_def list_all_iff is_dot_def is_space_def DQUOTE_def NEWLINE_def)
  then have w: "WORD_RE_match (n @ SPACE # DQUOTE # body @ [DQUOTE]) = Some (n, DQUOTE # body @ [DQUOTE])"
    by (rule WORD_RE_match_name_space [OF n])
  have m: "PARAM_RE_match (DQUOTE # body @ [DQUOTE]) = Some (None, Some body, [])"
    by (simp add: PARAM_RE_match_quoted qb sep_rest_Nil)
  show ?thesis
    by (simp add: tokenize_def w tokenize_loop.simps [of "[n]" "DQUOTE # body @ [DQUOTE]"] m
        param_value_def tokenize_loop.simps [of _ "[]"])
qed

lemma quoted_body_plain:
  "list_all is_quoted_char q \<Longrightarrow> quoted_body (q @ DQUOTE # after) = Some (q, after)"
  by (induction q) (auto simp: is_quoted_char_def)

lemma quoted_body_unterminated:
  "list_all is_quoted_char q \<Longrightarrow> quoted_body q = None"
  by (induction q) (auto simp: is_quoted_char_def)

lemma UNESCAPE_RE_sub_other:
  "c \<noteq> BACKSLASH \<Longrightarrow> UNESCAPE_RE_sub (c # t) = c # UNESCAPE_RE_sub t"
  by (cases t) simp_all

lemma UNESCAPE_RE_sub_escape:
  "is_dot d \<Longrightarrow> UNESCAPE_RE_sub (BACKSLASH # d # t) = d # UNESCAPE_RE_sub t"
  by simp

lemma UNESCAPE_RE_sub_plain:
  "list_all is_quoted_char q \<Longrightarrow> UNESCAPE_RE_sub q = q"
  by (induction q) (auto simp: is_quoted_char_def UNESCAPE_RE_sub_other)

lemma takeWhile_dot_newline:
  "NEWLINE \<in> set q \<Longrightarrow> takeWhile is_dot (q @ ys) = takeWhile is_dot q"
  by (induction q) (auto simp: is_dot_def)

lemma tokenize_quoted_newline:
  assumes n: "is_command_name n" and q: "list_all is_quoted_char q" and nl: "NEWLINE \<in> set q"
  shows "tokenize (n @ SPACE # DQUOTE # q @ [DQUOTE]) = Inl Invalid_parameter"
proof -
  obtain c cs where nc: "n = c # cs" and c: "is_lower c" and cs: "list_all is_name_char cs"
    using n by (cases n) (auto simp: is_command_name_def)
  let ?q1 = "takeWhile is_dot q"
  have d: "is_dot DQUOTE" "\<not> is_space DQUOTE" "is_space SPACE"
    by (simp_all add: is_dot_def is_space_def DQUOTE_def NEWLINE_def SPACE_def)
  have s: "sep_rest (SPACE # DQUOTE # q @ [DQUOTE]) = Some (DQUOTE # ?q1)"
    by (simp add: sep_rest_def d takeWhile_dot_newline [OF nl])
  have w: "WORD_RE_match (n @ SPACE # DQUOTE # q @ [DQUOTE]) = Some (n, DQUOTE # ?q1)"
    by (simp add: WORD_RE_match_eq nc c takeWhile_run [OF cs not_name_char_SPACE]
        dropWhile_run [OF cs not_name_char_SPACE] s)
  have "list_all is_quoted_char ?q1"
    using q by (auto simp: list_all_iff dest: set_takeWhileD)
  then have m: "PARAM_RE_match (DQUOTE # ?q1) = None"
    by (simp add: PARAM_RE_match_quoted quoted_body_unterminated)
  show ?thesis
    by (simp add: tokenize_def w tokenize_loop.simps [of "[n]" "DQUOTE # ?q1"] m)
qed

text \<open>
  A tab (0x09) between the quotes: the line is accepted and the tab is part of
  the argument.
\<close>

theorem quoted_control_character_counterexample:
  "(0x09 :: uchar) < 0x20
   \<and> tokenize (ustr ''cmd '' @ [DQUOTE, 0x61, 0x09, 0x62, DQUOTE]) = Inr [ustr ''cmd'', [0x61, 0x09, 0x62]]"
  by code_simp

text \<open>
  Claim C4, amended. Between the quotes the pattern excludes only the double
  quote and the backslash (\<^verbatim>\<open>[^"\\]\<close>, ``anything surrounded by quotes''):
  unescaped characters of ordinal value below 0x20 are accepted there and
  returned in the argument. For a command name \<open>n\<close> and a content \<open>q\<close> without
  quote and backslash, the line \<open>n "q"\<close> yields the single argument \<open>q\<close>, unless
  \<open>q\<close> has a newline, the one control character for which the line is rejected
  (the remainder handed to the loop stops before a newline).
\<close>

theorem quoted_token_control_characters:
  assumes "is_command_name n" and "list_all is_quoted_char q"
  shows "tokenize (n @ SPACE # DQUOTE # q @ [DQUOTE]) =
           (if NEWLINE \<in> set q then Inl Invalid_parameter else Inr [n, q])"
proof (cases "NEWLINE \<in> set q")
  case True
  then show ?thesis
    by (simp add: tokenize_quoted_newline [OF assms])
next
  case False
  have "quoted_body (q @ [DQUOTE]) = Some (q, [])"
    by (rule quoted_body_plain [OF assms(2)])
  then show ?thesis
    using False
    by (simp add: tokenize_one_quoted [OF assms(1)] UNESCAPE_RE_sub_plain [OF assms(2)])
qed

theorem quoted_token_control_characters_witness:
  "is_command_name (ustr ''cmd'') \<and> list_all is_quoted_char [0x61, 0x01, 0x1F, 0x62]
   \<and> tokenize (ustr ''cmd'' @ SPACE # DQUOTE # [0x61, 0x01, 0x1F, 0x62] @ [DQUOTE])
       = Inr [ustr ''cmd'', [0x61, 0x01, 0x1F, 0x62]]"
proof -
  have n: "is_command_name (ustr ''cmd'')"
    by code_simp
  have q: "list_all is_quoted_char [0x61, 0x01, 0x1F, 0x62]"
    by code_simp
  have nl: "NEWLINE \<notin> set [0x61, 0x01, 0x1F, 0x62 :: uchar]"
    by (simp add: NEWLINE_def)
  show ?thesis
    using quoted_token_control_characters [OF n q] n q nl by simp
qed

subsection \<open>Unescaping\<close>

text \<open>
  The content of a quoted token as the specification describes it: a sequence
  of items, each a character that is neither quote nor backslash, or a backslash
  followed by the character it escapes. \<open>escaped_text\<close> is the text between the
  quotes, \<open>unescaped_text\<close> the same with every backslash removed and the
  character after it taken literally.
\<close>

datatype qitem = Plain uchar | Escaped uchar

fun item_text :: "qitem \<Rightarrow> ustring" where
  "item_text (Plain c) = [c]"
| "item_text (Escaped d) = [BACKSLASH, d]"

fun item_char :: "qitem \<Rightarrow> uchar" where
  "item_char (Plain c) = c"
| "item_char (Escaped d) = d"

fun item_ok :: "qitem \<Rightarrow> bool" where
  "item_ok (Plain c) = is_quoted_char c"
| "item_ok (Escaped d) = is_dot d"

definition escaped_text :: "qitem list \<Rightarrow> ustring" where
  "escaped_text items = concat (map item_text items)"

definition unescaped_text :: "qitem list \<Rightarrow> ustring" where
  "unescaped_text items = map item_char items"

lemma escaped_text_simps:
  "escaped_text [] = []"
  "escaped_text (Plain c # items) = c # escaped_text items"
  "escaped_text (Escaped d # items) = BACKSLASH # d # escaped_text items"
  by (simp_all add: escaped_text_def)

lemma quoted_body_escaped_text:
  "list_all item_ok items \<Longrightarrow>
     quoted_body (escaped_text items @ DQUOTE # after) = Some (escaped_text items, after)"
proof (induction items)
  case Nil
  then show ?case by (simp add: escaped_text_simps)
next
  case (Cons i items)
  then show ?case
    by (cases i) (auto simp: escaped_text_simps is_quoted_char_def DQUOTE_def BACKSLASH_def)
qed

lemma UNESCAPE_RE_sub_escaped_text:
  "list_all item_ok items \<Longrightarrow> UNESCAPE_RE_sub (escaped_text items) = unescaped_text items"
proof (induction items)
  case Nil
  then show ?case by (simp add: escaped_text_simps unescaped_text_def)
next
  case (Cons i items)
  then show ?case
    by (cases i)
      (auto simp: escaped_text_simps unescaped_text_def is_quoted_char_def UNESCAPE_RE_sub_other)
qed

lemma quoted_body_items:
  "quoted_body s = Some (q, after) \<Longrightarrow>
     \<exists>items. list_all item_ok items \<and> q = escaped_text items \<and> s = q @ DQUOTE # after"
proof (induction s arbitrary: q rule: quoted_body.induct)
  case 1
  then show ?case by simp
next
  case (2 c cs)
  show ?case
  proof (cases "c = DQUOTE")
    case True
    then have "q = []" "after = cs"
      using "2.prems" by simp_all
    then show ?thesis
      using True by (intro exI [of _ "[]"]) (simp add: escaped_text_simps)
  next
    case nq: False
    show ?thesis
    proof (cases "c = BACKSLASH")
      case True
      then obtain d ds q' where cs: "cs = d # ds" and d: "is_dot d"
        and q': "quoted_body ds = Some (q', after)" and q: "q = c # d # q'"
        using "2.prems" nq by (auto split: list.splits if_splits)
      obtain items where "list_all item_ok items" "q' = escaped_text items" "ds = q' @ DQUOTE # after"
        using "2.IH"(1) [OF nq True cs d q'] by blast
      then show ?thesis
        using True d q cs by (intro exI [of _ "Escaped d # items"]) (simp add: escaped_text_simps)
    next
      case False
      then obtain q' where q': "quoted_body cs = Some (q', after)" and q: "q = c # q'"
        using "2.prems" nq by auto
      obtain items where "list_all item_ok items" "q' = escaped_text items" "cs = q' @ DQUOTE # after"
        using "2.IH"(2) [OF nq False q'] by blast
      then show ?thesis
        using False nq q
        by (intro exI [of _ "Plain c # items"]) (simp add: escaped_text_simps is_quoted_char_def)
    qed
  qed
qed



subsection \<open>Failures\<close>

text \<open>
  The line begins with a command name: its first word, the characters before
  the first whitespace, matches \<^verbatim>\<open>[a-z][a-z0-9_]*\<close>.
\<close>

definition first_word :: "ustring \<Rightarrow> ustring" where
  "first_word line = takeWhile (\<lambda>c. \<not> is_space c) line"

definition begins_with_command :: "ustring \<Rightarrow> bool" where
  "begins_with_command line = is_command_name (first_word line)"

text \<open>A parameter is followed by whitespace or by the end of the input.\<close>

definition followed :: "ustring \<Rightarrow> bool" where
  "followed rest = (case rest of [] \<Rightarrow> True | c # cs \<Rightarrow> is_space c)"

text \<open>
  The two token forms of the specification, read at the start of a parameter
  segment: an unquoted token, or a quoted token with its two quotes.
\<close>

definition unquoted_form :: "ustring \<Rightarrow> bool" where
  "unquoted_form s =
     (\<exists>tok rest. s = tok @ rest \<and> tok \<noteq> [] \<and> list_all above_space_char tok \<and> followed rest)"

definition quoted_form :: "ustring \<Rightarrow> bool" where
  "quoted_form s =
     (\<exists>items rest. s = DQUOTE # escaped_text items @ DQUOTE # rest
        \<and> list_all item_ok items \<and> followed rest)"

text \<open>
  The remainders that the loop of \<open>tokenize\<close> holds, one per iteration, from the
  remainder it starts with.
\<close>

function loop_remainders :: "ustring \<Rightarrow> ustring list" where
  "loop_remainders remainder =
     (if remainder = [] then []
      else remainder #
        (case PARAM_RE_match remainder of
           None \<Rightarrow> []
         | Some (unquoted, quoted, remainder') \<Rightarrow> loop_remainders remainder'))"
  by pat_completeness auto
termination
  by (relation "measure length") (auto dest: PARAM_RE_match_length)

declare loop_remainders.simps [simp del]

lemma sep_rest_None_iff: "sep_rest rest = None \<longleftrightarrow> \<not> followed rest"
  by (cases rest) (auto simp: sep_rest_def followed_def at_eos_def is_space_def NEWLINE_def)

lemma takeWhile_run_followed:
  assumes "list_all P xs" and "\<And>c. is_space c \<Longrightarrow> \<not> P c" and "followed rest"
  shows "takeWhile P (xs @ rest) = xs \<and> dropWhile P (xs @ rest) = rest"
proof (cases rest)
  case Nil
  then show ?thesis
    by (simp add: takeWhile_all [OF assms(1)] dropWhile_all [OF assms(1)])
next
  case (Cons c cs)
  then have "\<not> P c"
    using assms(2,3) by (simp add: followed_def)
  then show ?thesis
    by (simp add: Cons takeWhile_run [OF assms(1)] dropWhile_run [OF assms(1)])
qed

lemma sep_rest_Some_followed: "sep_rest rest = Some r \<Longrightarrow> followed rest"
  using sep_rest_None_iff [of rest] by auto

lemma followed_dropWhile_not_space: "followed (dropWhile (\<lambda>c. \<not> is_space c) s)"
  by (induction s) (simp_all add: followed_def)

lemma followed_dropWhile:
  "followed (dropWhile P s) \<Longrightarrow> (\<And>c. P c \<Longrightarrow> \<not> is_space c) \<Longrightarrow>
     takeWhile (\<lambda>c. \<not> is_space c) s = takeWhile P s"
proof (induction s)
  case Nil
  then show ?case by simp
next
  case (Cons a s)
  show ?case
  proof (cases "P a")
    case True
    then show ?thesis
      using Cons by simp
  next
    case False
    then have "is_space a"
      using Cons.prems(1) by (simp add: followed_def)
    then show ?thesis
      using False by simp
  qed
qed

lemma WORD_RE_match_None_iff:
  "WORD_RE_match line = None \<longleftrightarrow> \<not> begins_with_command line"
proof (cases line)
  case Nil
  then show ?thesis
    by (simp add: WORD_RE_match_eq begins_with_command_def first_word_def is_command_name_def)
next
  case (Cons c cs)
  show ?thesis
  proof (cases "is_lower c")
    case False
    then show ?thesis
      by (auto simp: WORD_RE_match_eq Cons begins_with_command_def first_word_def
          is_command_name_def)
  next
    case True
    then have ns: "\<not> is_space c"
      by (auto simp: is_lower_def is_space_def)
    have "followed (dropWhile is_name_char cs) \<longleftrightarrow>
        list_all is_name_char (takeWhile (\<lambda>c. \<not> is_space c) cs)"
    proof
      assume "followed (dropWhile is_name_char cs)"
      then have "takeWhile (\<lambda>c. \<not> is_space c) cs = takeWhile is_name_char cs"
        by (rule followed_dropWhile) (rule name_char_not_space)
      then show "list_all is_name_char (takeWhile (\<lambda>c. \<not> is_space c) cs)"
        by (auto simp: list_all_iff dest: set_takeWhileD)
    next
      assume a: "list_all is_name_char (takeWhile (\<lambda>c. \<not> is_space c) cs)"
      have "dropWhile is_name_char (takeWhile (\<lambda>c. \<not> is_space c) cs @ dropWhile (\<lambda>c. \<not> is_space c) cs)
          = dropWhile (\<lambda>c. \<not> is_space c) cs"
        using takeWhile_run_followed [OF a _ followed_dropWhile_not_space [of cs]]
          name_char_not_space by blast
      then show "followed (dropWhile is_name_char cs)"
        using followed_dropWhile_not_space [of cs] by simp
    qed
    then show ?thesis
      using True ns
      by (simp add: WORD_RE_match_eq Cons begins_with_command_def first_word_def
          is_command_name_def sep_rest_None_iff)
  qed
qed

lemma unquoted_alt_None_iff: "unquoted_alt s = None \<longleftrightarrow> \<not> unquoted_form s"
proof
  assume n: "unquoted_alt s = None"
  show "\<not> unquoted_form s"
  proof
    assume "unquoted_form s"
    then obtain tok rest where s: "s = tok @ rest" and ne: "tok \<noteq> []"
      and t: "list_all is_unquoted_char tok" and f: "followed rest"
      by (auto simp: unquoted_form_def is_unquoted_char_above_space)
    have "takeWhile is_unquoted_char s = tok \<and> dropWhile is_unquoted_char s = rest"
      unfolding s using takeWhile_run_followed [OF t _ f] unquoted_char_not_space by blast
    then show False
      using n ne f by (simp add: unquoted_alt_eq sep_rest_None_iff)
  qed
next
  assume nf: "\<not> unquoted_form s"
  show "unquoted_alt s = None"
  proof (rule ccontr)
    assume "unquoted_alt s \<noteq> None"
    then have ne: "takeWhile is_unquoted_char s \<noteq> []"
      and f: "followed (dropWhile is_unquoted_char s)"
      by (auto simp: unquoted_alt_eq split: if_splits dest: sep_rest_Some_followed)
    have "list_all above_space_char (takeWhile is_unquoted_char s)"
      by (auto simp: list_all_iff is_unquoted_char_above_space dest: set_takeWhileD)
    then have "unquoted_form s"
      unfolding unquoted_form_def
      using ne f takeWhile_dropWhile_id [of is_unquoted_char s, symmetric] by blast
    then show False
      using nf by simp
  qed
qed

lemma quoted_alt_None_iff: "quoted_alt s = None \<longleftrightarrow> \<not> quoted_form s"
proof
  assume n: "quoted_alt s = None"
  show "\<not> quoted_form s"
  proof
    assume "quoted_form s"
    then obtain items rest where s: "s = DQUOTE # escaped_text items @ DQUOTE # rest"
      and i: "list_all item_ok items" and f: "followed rest"
      by (auto simp: quoted_form_def)
    show False
      using n f by (simp add: quoted_alt_def s quoted_body_escaped_text [OF i] sep_rest_None_iff)
  qed
next
  assume nf: "\<not> quoted_form s"
  show "quoted_alt s = None"
  proof (rule ccontr)
    assume "quoted_alt s \<noteq> None"
    then obtain cs q after where s: "s = DQUOTE # cs" and qb: "quoted_body cs = Some (q, after)"
      and f: "followed after"
      by (auto simp: quoted_alt_def split: list.splits if_splits option.splits
          dest: sep_rest_Some_followed)
    obtain items where "list_all item_ok items" "q = escaped_text items" "cs = q @ DQUOTE # after"
      using quoted_body_items [OF qb] by blast
    then have "quoted_form s"
      unfolding quoted_form_def using s f by blast
    then show False
      using nf by simp
  qed
qed

lemma PARAM_RE_match_None_iff:
  "PARAM_RE_match s = None \<longleftrightarrow> \<not> unquoted_form s \<and> \<not> quoted_form s"
  using unquoted_alt_None_iff [of s] quoted_alt_None_iff [of s]
  by (cases "unquoted_alt s") (simp_all add: PARAM_RE_match_def)

lemma tokenize_loop_Invalid_parameter_iff:
  "tokenize_loop result remainder = Inl Invalid_parameter \<longleftrightarrow>
     (\<exists>seg \<in> set (loop_remainders remainder). PARAM_RE_match seg = None)"
proof (induction result remainder rule: tokenize_loop.induct)
  case (1 result remainder)
  show ?case
  proof (cases "remainder = []")
    case True
    then show ?thesis
      by (simp add: tokenize_loop.simps [of result "[]"] loop_remainders.simps [of "[]"])
  next
    case ne: False
    show ?thesis
    proof (cases "PARAM_RE_match remainder")
      case None
      then show ?thesis
        using ne by (simp add: tokenize_loop.simps [of result remainder] loop_remainders.simps [of remainder])
    next
      case (Some g)
      obtain u q r where g: "g = (u, q, r)"
        by (cases g)
      obtain v where v: "param_value u q = Inr v"
        using param_value_defined Some g by blast
      have "tokenize_loop result remainder = tokenize_loop (result @ [v]) r"
        using ne by (simp add: tokenize_loop.simps [of result remainder] Some g v)
      moreover have "loop_remainders remainder = remainder # loop_remainders r"
        using ne by (simp add: loop_remainders.simps [of remainder] Some g)
      ultimately show ?thesis
        using "1.IH" [OF ne Some g [symmetric] refl v] Some by simp
    qed
  qed
qed

text \<open>
  The parameter segments of a line, read off the line by the grammar of the
  specification. The text of the parameters begins after the command name and
  the whitespace behind it. A segment is what is left of that text to parse;
  when it begins with a token of one of the two forms, followed by whitespace or
  by the end, the next segment begins after that whitespace.
\<close>

definition after_command :: "ustring \<Rightarrow> ustring" where
  "after_command line = dropWhile is_space (dropWhile (\<lambda>c. \<not> is_space c) line)"

text \<open>What follows the first double quote that no backslash escapes.\<close>

fun closing_quote :: "ustring \<Rightarrow> ustring option" where
  "closing_quote [] = None"
| "closing_quote (c # cs) =
     (if c = DQUOTE then Some cs
      else if c = BACKSLASH then (case cs of [] \<Rightarrow> None | d # ds \<Rightarrow> closing_quote ds)
      else closing_quote cs)"

definition after_token :: "ustring \<Rightarrow> ustring option" where
  "after_token s =
     (case s of
        [] \<Rightarrow> None
      | c # cs \<Rightarrow>
          if above_space_char c then Some (dropWhile above_space_char s)
          else if c = DQUOTE then closing_quote cs
          else None)"

definition next_segment :: "ustring \<Rightarrow> ustring option" where
  "next_segment s =
     (case after_token s of
        None \<Rightarrow> None
      | Some rest \<Rightarrow> if followed rest then Some (dropWhile is_space rest) else None)"

lemma closing_quote_length: "closing_quote s = Some r \<Longrightarrow> length r < length s"
proof (induction s rule: closing_quote.induct)
  case 1
  then show ?case by simp
next
  case (2 c cs)
  then show ?case
    by (fastforce split: if_splits list.splits)
qed

lemma after_token_length: "after_token s = Some r \<Longrightarrow> length r < length s"
proof (cases s)
  case Nil
  then show "after_token s = Some r \<Longrightarrow> length r < length s"
    by (simp add: after_token_def)
next
  case (Cons c cs)
  assume a: "after_token s = Some r"
  show "length r < length s"
  proof (cases "above_space_char c")
    case True
    then have "r = dropWhile above_space_char cs"
      using a by (simp add: after_token_def Cons)
    then show ?thesis
      by (simp add: Cons le_imp_less_Suc length_dropWhile_le)
  next
    case False
    then have "closing_quote cs = Some r"
      using a by (simp add: after_token_def Cons split: if_splits)
    then show ?thesis
      using closing_quote_length [of cs r] by (simp add: Cons)
  qed
qed

lemma next_segment_length: "next_segment s = Some r \<Longrightarrow> length r < length s"
proof -
  assume "next_segment s = Some r"
  then obtain rest where a: "after_token s = Some rest" and r: "r = dropWhile is_space rest"
    by (auto simp: next_segment_def split: option.splits if_splits)
  have "length r \<le> length rest"
    by (simp add: r length_dropWhile_le)
  then show ?thesis
    using after_token_length [OF a] by simp
qed

function parameter_segments :: "ustring \<Rightarrow> ustring list" where
  "parameter_segments s =
     (if s = [] then []
      else s # (case next_segment s of None \<Rightarrow> [] | Some s' \<Rightarrow> parameter_segments s'))"
  by pat_completeness auto
termination
  by (relation "measure length") (auto dest: next_segment_length)

declare parameter_segments.simps [simp del]

text \<open>
  The text that \<open>tokenize\<close> parses as parameters: \<^verbatim>\<open>(.*)\<close> in \<^verbatim>\<open>WORD_RE\<close> stops at a
  newline, so it is the text after the command up to the first newline in it.
\<close>

definition parsed_text :: "ustring \<Rightarrow> ustring" where
  "parsed_text line = takeWhile is_dot (after_command line)"

lemma takeWhile_dot_id: "NEWLINE \<notin> set s \<Longrightarrow> takeWhile is_dot s = s"
  by (induction s) (auto simp: is_dot_def)

lemma newline_free_parsed_text: "NEWLINE \<notin> set (parsed_text line)"
  by (auto simp: parsed_text_def is_dot_def dest: set_takeWhileD)

lemma parsed_text_whole: "NEWLINE \<notin> set line \<Longrightarrow> parsed_text line = after_command line"
proof -
  assume "NEWLINE \<notin> set line"
  then have "NEWLINE \<notin> set (after_command line)"
    unfolding after_command_def by (metis set_dropWhileD)
  then show ?thesis
    by (simp add: parsed_text_def takeWhile_dot_id)
qed

lemma sep_rest_eq:
  "sep_rest rest = (if followed rest then Some (takeWhile is_dot (dropWhile is_space rest)) else None)"
  by (cases rest) (auto simp: sep_rest_def followed_def at_eos_def is_space_def NEWLINE_def)

lemma dropWhile_eq_of_takeWhile_eq:
  "takeWhile P s = takeWhile Q s \<Longrightarrow> dropWhile P s = dropWhile Q s"
  by (metis append_same_eq same_append_eq takeWhile_dropWhile_id)

lemma WORD_RE_match_begins:
  assumes "begins_with_command line"
  shows "WORD_RE_match line = Some (first_word line, parsed_text line)"
proof -
  obtain c cs where line: "line = c # cs"
    using assms by (cases line) (auto simp: begins_with_command_def first_word_def is_command_name_def)
  have ns: "\<not> is_space c"
    using assms
    by (cases "is_space c") (auto simp: begins_with_command_def first_word_def line is_command_name_def)
  then have fw: "first_word line = c # takeWhile (\<lambda>c. \<not> is_space c) cs"
    by (simp add: first_word_def line)
  then have lc: "is_lower c" and nm: "list_all is_name_char (takeWhile (\<lambda>c. \<not> is_space c) cs)"
    using assms by (simp_all add: begins_with_command_def is_command_name_def)
  have "takeWhile is_name_char (takeWhile (\<lambda>c. \<not> is_space c) cs @ dropWhile (\<lambda>c. \<not> is_space c) cs)
          = takeWhile (\<lambda>c. \<not> is_space c) cs"
    using takeWhile_run_followed [OF nm _ followed_dropWhile_not_space [of cs]]
      name_char_not_space by blast
  then have tw: "takeWhile is_name_char cs = takeWhile (\<lambda>c. \<not> is_space c) cs"
    by simp
  then have dw: "dropWhile is_name_char cs = dropWhile (\<lambda>c. \<not> is_space c) cs"
    by (rule dropWhile_eq_of_takeWhile_eq)
  have pt: "parsed_text line = takeWhile is_dot (dropWhile is_space (dropWhile (\<lambda>c. \<not> is_space c) cs))"
    using ns by (simp add: parsed_text_def after_command_def line)
  show ?thesis
    using fw pt
    by (simp add: WORD_RE_match_eq line lc tw dw sep_rest_eq followed_dropWhile_not_space)
qed

lemma quoted_body_closing_quote:
  "NEWLINE \<notin> set s \<Longrightarrow> map_option snd (quoted_body s) = closing_quote s"
proof (induction s rule: quoted_body.induct)
  case 1
  then show ?case by simp
next
  case (2 c cs)
  then show ?case
    by (cases cs) (auto simp: is_dot_def option.map_comp comp_def split_beta)
qed

lemma PARAM_RE_match_next_segment:
  assumes "NEWLINE \<notin> set s"
  shows "map_option (\<lambda>(unquoted, quoted, remainder). remainder) (PARAM_RE_match s) = next_segment s"
proof (cases s)
  case Nil
  then show ?thesis
    by (simp add: PARAM_RE_match_def unquoted_alt_eq quoted_alt_def next_segment_def after_token_def)
next
  case (Cons c cs)
  show ?thesis
  proof (cases "above_space_char c")
    case True
    then have nq: "c \<noteq> DQUOTE"
      by (auto simp: above_space_char_def)
    have nl: "NEWLINE \<notin> set (dropWhile is_space (dropWhile above_space_char cs))"
      using assms Cons by (metis set_dropWhileD set_subset_Cons subsetD)
    show ?thesis
      using True nq
      by (simp add: PARAM_RE_match_def unquoted_alt_eq quoted_alt_def next_segment_def
          after_token_def Cons is_unquoted_char_above_space sep_rest_eq takeWhile_dot_id [OF nl])
  next
    case False
    show ?thesis
    proof (cases "c = DQUOTE")
      case True
      have nl: "NEWLINE \<notin> set cs"
        using assms Cons by simp
      have cq: "closing_quote cs = map_option snd (quoted_body cs)"
        using quoted_body_closing_quote [OF nl] by simp
      have d: "takeWhile is_dot (dropWhile is_space after) = dropWhile is_space after"
        if qb: "quoted_body cs = Some (q, after)" for q after
      proof -
        obtain items where "cs = q @ DQUOTE # after"
          using quoted_body_items [OF qb] by blast
        then have "NEWLINE \<notin> set after"
          using nl by auto
        then have "NEWLINE \<notin> set (dropWhile is_space after)"
          by (metis set_dropWhileD)
        then show ?thesis
          by (rule takeWhile_dot_id)
      qed
      show ?thesis
        using False d
        by (auto simp: Cons True PARAM_RE_match_quoted next_segment_def after_token_def cq
            sep_rest_eq split: option.splits)
    next
      case nq: False
      then show ?thesis
        using False
        by (simp add: PARAM_RE_match_def unquoted_alt_eq quoted_alt_def next_segment_def
            after_token_def Cons is_unquoted_char_above_space)
    qed
  qed
qed

lemma PARAM_RE_match_remainder_subset:
  assumes "PARAM_RE_match s = Some (u, q, r)"
  shows "set r \<subseteq> set s"
proof -
  have a: "set r \<subseteq> set rest" if "sep_rest rest = Some r" for rest
  proof -
    have "r = takeWhile is_dot (dropWhile is_space rest)"
      using that by (simp add: sep_rest_eq split: if_splits)
    then show ?thesis
      by (auto dest!: set_takeWhileD set_dropWhileD)
  qed
  from assms show ?thesis
  proof (cases rule: PARAM_RE_match_cases)
    case unquoted
    then show ?thesis
      using a [of "dropWhile is_unquoted_char s"] by (auto dest: set_dropWhileD)
  next
    case (quoted cs body after)
    obtain items where "cs = body @ DQUOTE # after"
      using quoted_body_items [OF quoted(4)] by blast
    then show ?thesis
      using a [OF quoted(5)] quoted(1) by auto
  qed
qed

lemma loop_remainders_parameter_segments:
  "NEWLINE \<notin> set s \<Longrightarrow> loop_remainders s = parameter_segments s"
proof (induction s rule: loop_remainders.induct)
  case (1 s)
  show ?case
  proof (cases "s = []")
    case True
    then show ?thesis
      by (simp add: loop_remainders.simps [of "[]"] parameter_segments.simps [of "[]"])
  next
    case ne: False
    show ?thesis
    proof (cases "PARAM_RE_match s")
      case None
      then have "next_segment s = None"
        using PARAM_RE_match_next_segment [OF "1.prems"] by simp
      then show ?thesis
        using ne None by (simp add: loop_remainders.simps [of s] parameter_segments.simps [of s])
    next
      case (Some g)
      obtain u q r where g: "g = (u, q, r)"
        by (cases g)
      have n: "next_segment s = Some r"
        using PARAM_RE_match_next_segment [OF "1.prems"] Some g by simp
      have "NEWLINE \<notin> set r"
        using PARAM_RE_match_remainder_subset [of s u q r] Some g "1.prems" by auto
      then have "loop_remainders r = parameter_segments r"
        using "1.IH" [OF ne Some g [symmetric] refl] by simp
      then show ?thesis
        using ne by (simp add: loop_remainders.simps [of s] parameter_segments.simps [of s] Some g n)
    qed
  qed
qed

text \<open>
  On the line \<^verbatim>\<open>cmd a\<close>, newline, \<^verbatim>\<open>"b\<close> the text after the command has two
  segments and the second, an unterminated quote, has neither token form; yet
  \<open>tokenize\<close> returns the command and \<^verbatim>\<open>a\<close>.
\<close>

theorem invalid_parameter_after_newline_counterexample:
  "tokenize (ustr ''cmd a'' @ [NEWLINE, DQUOTE] @ ustr ''b'') = Inr [ustr ''cmd'', ustr ''a'']
   \<and> begins_with_command (ustr ''cmd a'' @ [NEWLINE, DQUOTE] @ ustr ''b'')
   \<and> parameter_segments (after_command (ustr ''cmd a'' @ [NEWLINE, DQUOTE] @ ustr ''b''))
       = [ustr ''a'' @ [NEWLINE, DQUOTE] @ ustr ''b'', DQUOTE # ustr ''b'']
   \<and> \<not> unquoted_form (DQUOTE # ustr ''b'') \<and> \<not> quoted_form (DQUOTE # ustr ''b'')"
proof -
  have "PARAM_RE_match (DQUOTE # ustr ''b'') = None"
    by code_simp
  then have n: "\<not> unquoted_form (DQUOTE # ustr ''b'') \<and> \<not> quoted_form (DQUOTE # ustr ''b'')"
    using PARAM_RE_match_None_iff by blast
  have t: "tokenize (ustr ''cmd a'' @ [NEWLINE, DQUOTE] @ ustr ''b'') = Inr [ustr ''cmd'', ustr ''a'']"
    by code_simp
  have b: "begins_with_command (ustr ''cmd a'' @ [NEWLINE, DQUOTE] @ ustr ''b'')"
    by code_simp
  have p: "parameter_segments (after_command (ustr ''cmd a'' @ [NEWLINE, DQUOTE] @ ustr ''b''))
       = [ustr ''a'' @ [NEWLINE, DQUOTE] @ ustr ''b'', DQUOTE # ustr ''b'']"
    by code_simp
  show ?thesis
    using n t b p by blast
qed

text \<open>
  Claim C7, amended. \<open>tokenize\<close> has exactly two failures. It fails with the
  invalid-command failure exactly when the line does not begin, without leading
  whitespace, with a command name matching \<^verbatim>\<open>[a-z][a-z0-9_]*\<close> (its first word is
  not such a name: the empty line, leading whitespace, a character outside the
  name's alphabet). It fails with the invalid-parameter failure exactly when
  the line begins with a command name and some parameter segment of the text it
  parses matches neither the unquoted nor the quoted token form, as an
  unterminated quote does. The text it parses is the rest of the line after the
  command and the whitespace behind it, up to the first newline in it: all of
  that rest when the line has no newline. The third failure of the model, a
  type error in the unescaping, never comes out.
\<close>

theorem tokenize_failure_kinds:
  "tokenize line \<noteq> Inl Type_error
   \<and> (tokenize line = Inl Invalid_command \<longleftrightarrow> \<not> begins_with_command line)
   \<and> (tokenize line = Inl Invalid_parameter \<longleftrightarrow>
       begins_with_command line
       \<and> (\<exists>seg \<in> set (parameter_segments (parsed_text line)).
             \<not> unquoted_form seg \<and> \<not> quoted_form seg))
   \<and> (NEWLINE \<notin> set line \<longrightarrow> parsed_text line = after_command line)"
proof (cases "begins_with_command line")
  case False
  then have "WORD_RE_match line = None"
    by (simp add: WORD_RE_match_None_iff)
  then show ?thesis
    using False by (simp add: tokenize_def parsed_text_whole)
next
  case True
  have t: "tokenize line = tokenize_loop [first_word line] (parsed_text line)"
    by (simp add: tokenize_def WORD_RE_match_begins [OF True])
  have "tokenize_loop [first_word line] (parsed_text line) \<noteq> Inl Type_error"
    and "tokenize_loop [first_word line] (parsed_text line) \<noteq> Inl Invalid_command"
    using tokenize_loop_errors [of "[first_word line]" "parsed_text line"] by auto
  then show ?thesis
    using True
    by (simp add: t tokenize_loop_Invalid_parameter_iff PARAM_RE_match_None_iff
        loop_remainders_parameter_segments [OF newline_free_parsed_text] parsed_text_whole)
qed

theorem tokenize_failure_kinds_witness:
  "tokenize [] = Inl Invalid_command \<and> \<not> begins_with_command []
   \<and> tokenize (ustr ''  ping'') = Inl Invalid_command \<and> \<not> begins_with_command (ustr ''  ping'')
   \<and> tokenize (ustr ''pi-ng 1'') = Inl Invalid_command \<and> \<not> begins_with_command (ustr ''pi-ng 1'')
   \<and> tokenize (ustr ''ping 1'') = Inr [ustr ''ping'', ustr ''1''] \<and> begins_with_command (ustr ''ping 1'')
   \<and> NEWLINE \<notin> set (ustr ''cmd x '' @ DQUOTE # ustr ''abc'')
   \<and> parsed_text (ustr ''cmd x '' @ DQUOTE # ustr ''abc'')
       = after_command (ustr ''cmd x '' @ DQUOTE # ustr ''abc'')
   \<and> parameter_segments (after_command (ustr ''cmd x '' @ DQUOTE # ustr ''abc''))
       = [ustr ''x '' @ DQUOTE # ustr ''abc'', DQUOTE # ustr ''abc'']
   \<and> tokenize (ustr ''cmd x '' @ DQUOTE # ustr ''abc'') = Inl Invalid_parameter
   \<and> (\<exists>seg \<in> set (parameter_segments (parsed_text (ustr ''cmd x '' @ DQUOTE # ustr ''abc''))).
         \<not> unquoted_form seg \<and> \<not> quoted_form seg)"
proof -
  have t: "tokenize [] = Inl Invalid_command"
    "tokenize (ustr ''  ping'') = Inl Invalid_command"
    "tokenize (ustr ''pi-ng 1'') = Inl Invalid_command"
    "tokenize (ustr ''ping 1'') = Inr [ustr ''ping'', ustr ''1'']"
    "tokenize (ustr ''cmd x '' @ DQUOTE # ustr ''abc'') = Inl Invalid_parameter"
    by code_simp+
  have n: "NEWLINE \<notin> set (ustr ''cmd x '' @ DQUOTE # ustr ''abc'')"
    by code_simp
  have p: "parameter_segments (after_command (ustr ''cmd x '' @ DQUOTE # ustr ''abc''))
       = [ustr ''x '' @ DQUOTE # ustr ''abc'', DQUOTE # ustr ''abc'']"
    by code_simp
  show ?thesis
    using t n p tokenize_failure_kinds [of "[]"] tokenize_failure_kinds [of "ustr ''  ping''"]
      tokenize_failure_kinds [of "ustr ''pi-ng 1''"] tokenize_failure_kinds [of "ustr ''ping 1''"]
      tokenize_failure_kinds [of "ustr ''cmd x '' @ DQUOTE # ustr ''abc''"]
    by simp
qed

subsection \<open>No partial output\<close>

text \<open>
  A line without partial output. \<open>token_text raw v\<close>: the text \<open>raw\<close> is a
  token of one of the two forms and \<open>v\<close> is its value (the text itself, or the
  unescaped content between the quotes). \<open>parameters text vs\<close>: the text is made,
  from its first to its last character, of tokens separated by whitespace,
  whose values are \<open>vs\<close> in this order.
\<close>

definition token_text :: "ustring \<Rightarrow> ustring \<Rightarrow> bool" where
  "token_text raw v =
     ((raw \<noteq> [] \<and> list_all above_space_char raw \<and> v = raw)
      \<or> (\<exists>items. list_all item_ok items \<and> raw = DQUOTE # escaped_text items @ [DQUOTE]
            \<and> v = unescaped_text items))"

definition no_leading_space :: "ustring \<Rightarrow> bool" where
  "no_leading_space rest = (case rest of [] \<Rightarrow> True | c # cs \<Rightarrow> \<not> is_space c)"

inductive parameters :: "ustring \<Rightarrow> ustring list \<Rightarrow> bool" where
  no_parameter: "parameters [] []"
| parameter: "token_text raw v \<Longrightarrow> list_all is_space ws \<Longrightarrow> (rest \<noteq> [] \<longrightarrow> ws \<noteq> []) \<Longrightarrow>
     no_leading_space rest \<Longrightarrow> parameters rest vs \<Longrightarrow> parameters (raw @ ws @ rest) (v # vs)"

lemma followed_spaces: "list_all is_space ws \<Longrightarrow> (rest \<noteq> [] \<longrightarrow> ws \<noteq> []) \<Longrightarrow> followed (ws @ rest)"
  by (cases ws) (auto simp: followed_def)

lemma dropWhile_spaces:
  "list_all is_space ws \<Longrightarrow> no_leading_space rest \<Longrightarrow> dropWhile is_space (ws @ rest) = rest"
  by (induction ws) (auto simp: no_leading_space_def split: list.splits)

lemma no_leading_space_dropWhile: "no_leading_space (dropWhile is_space s)"
  by (induction s) (simp_all add: no_leading_space_def)

lemma followed_split:
  "followed rest \<Longrightarrow> list_all is_space (takeWhile is_space rest)
     \<and> (dropWhile is_space rest \<noteq> [] \<longrightarrow> takeWhile is_space rest \<noteq> [])"
  by (cases rest) (auto simp: followed_def list_all_iff dest: set_takeWhileD)

lemma PARAM_RE_match_token_text:
  assumes "token_text raw v" and "list_all is_space ws" and "rest \<noteq> [] \<longrightarrow> ws \<noteq> []"
    and "no_leading_space rest" and "NEWLINE \<notin> set rest"
  shows "\<exists>u q. PARAM_RE_match (raw @ ws @ rest) = Some (u, q, rest) \<and> param_value u q = Inr v"
proof -
  have f: "followed (ws @ rest)"
    using assms(2,3) by (rule followed_spaces)
  have s: "sep_rest (ws @ rest) = Some rest"
    using f by (simp add: sep_rest_eq dropWhile_spaces [OF assms(2,4)] takeWhile_dot_id [OF assms(5)])
  from assms(1) consider
    (unquoted) "raw \<noteq> []" "list_all above_space_char raw" "v = raw"
    | (quoted) items where "list_all item_ok items" "raw = DQUOTE # escaped_text items @ [DQUOTE]"
      "v = unescaped_text items"
    by (auto simp: token_text_def)
  then show ?thesis
  proof cases
    case unquoted
    have u: "list_all is_unquoted_char raw"
      using unquoted(2) by (simp add: is_unquoted_char_above_space)
    have "takeWhile is_unquoted_char (raw @ ws @ rest) = raw
        \<and> dropWhile is_unquoted_char (raw @ ws @ rest) = ws @ rest"
      using takeWhile_run_followed [OF u _ f] unquoted_char_not_space by blast
    then have "PARAM_RE_match (raw @ ws @ rest) = Some (Some raw, None, rest)"
      using unquoted(1) by (simp add: PARAM_RE_match_def unquoted_alt_eq s)
    then show ?thesis
      using unquoted(1,3) by (simp add: param_value_def)
  next
    case quoted
    have "PARAM_RE_match (raw @ ws @ rest) = Some (None, Some (escaped_text items), rest)"
      by (simp add: quoted(2) PARAM_RE_match_quoted quoted_body_escaped_text [OF quoted(1)] s)
    then show ?thesis
      by (simp add: param_value_def UNESCAPE_RE_sub_escaped_text [OF quoted(1)] quoted(3))
  qed
qed

lemma tokenize_loop_parameters:
  "parameters text vs \<Longrightarrow> NEWLINE \<notin> set text \<Longrightarrow> tokenize_loop result text = Inr (result @ vs)"
proof (induction arbitrary: result rule: parameters.induct)
  case no_parameter
  then show ?case
    by (simp add: tokenize_loop.simps [of result "[]"])
next
  case (parameter raw v ws rest vs)
  have nl: "NEWLINE \<notin> set rest"
    using parameter.prems by simp
  obtain u q where m: "PARAM_RE_match (raw @ ws @ rest) = Some (u, q, rest)"
    and pv: "param_value u q = Inr v"
    using PARAM_RE_match_token_text [OF parameter.hyps(1-4) nl] by blast
  have ne: "raw \<noteq> []"
    using parameter.hyps(1) by (auto simp: token_text_def)
  have "tokenize_loop result (raw @ ws @ rest) = tokenize_loop (result @ [v]) rest"
    by (simp add: tokenize_loop.simps [of result "raw @ ws @ rest"] m pv ne)
  then show ?case
    using parameter.IH [OF nl, of "result @ [v]"] by simp
qed

lemma PARAM_RE_match_parameter:
  assumes "PARAM_RE_match s = Some (u, q, r)" and "NEWLINE \<notin> set s"
  shows "\<exists>raw v ws. token_text raw v \<and> param_value u q = Inr v \<and> list_all is_space ws
     \<and> (r \<noteq> [] \<longrightarrow> ws \<noteq> []) \<and> no_leading_space r \<and> s = raw @ ws @ r"
proof -
  have sp: "list_all is_space (takeWhile is_space rest)
      \<and> (r \<noteq> [] \<longrightarrow> takeWhile is_space rest \<noteq> []) \<and> no_leading_space r
      \<and> rest = takeWhile is_space rest @ r"
    if sr: "sep_rest rest = Some r" and nl: "NEWLINE \<notin> set rest" for rest
  proof -
    have f: "followed rest"
      using sr by (rule sep_rest_Some_followed)
    have "NEWLINE \<notin> set (dropWhile is_space rest)"
      using nl by (metis set_dropWhileD)
    then have r: "r = dropWhile is_space rest"
      using sr f by (simp add: sep_rest_eq takeWhile_dot_id)
    show ?thesis
      using followed_split [OF f] by (simp add: r no_leading_space_dropWhile)
  qed
  from assms(1) show ?thesis
  proof (cases rule: PARAM_RE_match_cases)
    case unquoted
    let ?raw = "takeWhile is_unquoted_char s"
    let ?rest = "dropWhile is_unquoted_char s"
    have "NEWLINE \<notin> set ?rest"
      using assms(2) by (metis set_dropWhileD)
    then have a: "list_all is_space (takeWhile is_space ?rest)
      \<and> (r \<noteq> [] \<longrightarrow> takeWhile is_space ?rest \<noteq> []) \<and> no_leading_space r
      \<and> ?rest = takeWhile is_space ?rest @ r"
      using sp [OF unquoted(4)] by simp
    have "list_all above_space_char ?raw"
      by (auto simp: list_all_iff is_unquoted_char_above_space dest: set_takeWhileD)
    then have t: "token_text ?raw ?raw"
      using unquoted(2) by (simp add: token_text_def)
    have pv: "param_value u q = Inr ?raw"
      using unquoted(1,2,3) by (simp add: param_value_def)
    have "s = ?raw @ takeWhile is_space ?rest @ r"
      using a by (metis takeWhile_dropWhile_id)
    then show ?thesis
      using t pv a by blast
  next
    case (quoted cs body after)
    obtain items where i: "list_all item_ok items" "body = escaped_text items"
      "cs = body @ DQUOTE # after"
      using quoted_body_items [OF quoted(4)] by blast
    have "NEWLINE \<notin> set after"
      using assms(2) quoted(1) i(3) by auto
    then have a: "list_all is_space (takeWhile is_space after)
      \<and> (r \<noteq> [] \<longrightarrow> takeWhile is_space after \<noteq> []) \<and> no_leading_space r
      \<and> after = takeWhile is_space after @ r"
      using sp [OF quoted(5)] by simp
    let ?raw = "DQUOTE # escaped_text items @ [DQUOTE]"
    have t: "token_text ?raw (unescaped_text items)"
      using i(1) by (auto simp: token_text_def)
    have pv: "param_value u q = Inr (unescaped_text items)"
      using quoted(2,3) i(1,2) by (simp add: param_value_def UNESCAPE_RE_sub_escaped_text)
    have "s = ?raw @ takeWhile is_space after @ r"
      using a quoted(1) i(2,3) by simp
    then show ?thesis
      using t pv a by blast
  qed
qed

lemma parameters_tokenize_loop:
  "tokenize_loop result s = Inr tokens \<Longrightarrow> NEWLINE \<notin> set s \<Longrightarrow>
     \<exists>vs. tokens = result @ vs \<and> parameters s vs"
proof (induction result s rule: tokenize_loop.induct)
  case (1 result s)
  show ?case
  proof (cases "s = []")
    case True
    then show ?thesis
      using "1.prems"(1) by (auto simp: tokenize_loop.simps [of result "[]"] intro: no_parameter)
  next
    case ne: False
    then obtain u q r where m: "PARAM_RE_match s = Some (u, q, r)"
      using "1.prems"(1)
      by (cases "PARAM_RE_match s") (auto simp: tokenize_loop.simps [of result s])
    obtain raw v ws where p: "token_text raw v" "param_value u q = Inr v" "list_all is_space ws"
      "r \<noteq> [] \<longrightarrow> ws \<noteq> []" "no_leading_space r" "s = raw @ ws @ r"
      using PARAM_RE_match_parameter [OF m "1.prems"(2)] by blast
    have t: "tokenize_loop (result @ [v]) r = Inr tokens"
      using "1.prems"(1) ne by (simp add: tokenize_loop.simps [of result s] m p(2))
    have nl: "NEWLINE \<notin> set r"
      using "1.prems"(2) p(6) by auto
    obtain vs where vs: "tokens = (result @ [v]) @ vs" "parameters r vs"
      using "1.IH" [OF ne m refl refl p(2) t nl] by blast
    have "parameters (raw @ ws @ r) (v # vs)"
      using p(1,3,4,5) vs(2) by (rule parameter)
    then show ?thesis
      using vs(1) p(6) by auto
  qed
qed

text \<open>
  With a newline in the line the output is partial: \<^verbatim>\<open>cmd a\<close>, newline,
  \<^verbatim>\<open>b c d\<close> gives the command and \<^verbatim>\<open>a\<close>, where \<^verbatim>\<open>cmd a b c d\<close> gives four
  arguments; and while \<^verbatim>\<open>cmd a "b\<close> is rejected for its unterminated quote, the
  same with a newline for the second space is accepted with what stands before
  the newline.
\<close>

theorem tokenize_partial_output_counterexample:
  "tokenize (ustr ''cmd a'' @ NEWLINE # ustr ''b c d'') = Inr [ustr ''cmd'', ustr ''a'']
   \<and> tokenize (ustr ''cmd a b c d'')
       = Inr [ustr ''cmd'', ustr ''a'', ustr ''b'', ustr ''c'', ustr ''d'']
   \<and> tokenize (ustr ''cmd a '' @ DQUOTE # ustr ''b'') = Inl Invalid_parameter
   \<and> tokenize (ustr ''cmd a'' @ NEWLINE # DQUOTE # ustr ''b'') = Inr [ustr ''cmd'', ustr ''a'']"
  by code_simp

text \<open>
  Claim C8, amended. \<open>tokenize\<close> is total and deterministic: it is a function of
  the line alone, defined by a recursion whose termination is proved above, each
  iteration of its loop leaving a strictly shorter remainder; and its value on
  a line is one of the two failures or one list of tokens, with no more tokens
  than the line has characters. Of the text it parses, the output is never a
  part only: it returns tokens exactly when the line begins with a command name
  and the parsed text is, from its first to its last character, a sequence of
  tokens separated by whitespace, and the tokens are then the command and the
  values of all of them, in order. On a line without a newline the command, the
  whitespace behind it and the parsed text are the whole line.
\<close>

theorem tokenize_total_deterministic:
  "(PARAM_RE_match remainder = Some (unquoted, quoted, remainder') \<longrightarrow>
      length remainder' < length remainder)
   \<and> (tokenize line = Inl Invalid_command \<or> tokenize line = Inl Invalid_parameter
      \<or> (\<exists>tokens. tokenize line = Inr tokens \<and> length tokens \<le> length line))
   \<and> (tokenize line = Inr tokens \<longleftrightarrow>
       begins_with_command line
       \<and> (\<exists>args. tokens = first_word line # args \<and> parameters (parsed_text line) args))
   \<and> (NEWLINE \<notin> set line \<longrightarrow>
       line = first_word line @ takeWhile is_space (dropWhile (\<lambda>c. \<not> is_space c) line)
                @ parsed_text line)"
proof (intro conjI)
  show "PARAM_RE_match remainder = Some (unquoted, quoted, remainder') \<longrightarrow>
      length remainder' < length remainder"
    using PARAM_RE_match_length by blast
next
  show "tokenize line = Inl Invalid_command \<or> tokenize line = Inl Invalid_parameter
      \<or> (\<exists>tokens. tokenize line = Inr tokens \<and> length tokens \<le> length line)"
  proof (cases "WORD_RE_match line")
    case None
    then show ?thesis by (simp add: tokenize_def)
  next
    case (Some g)
    obtain command r where g: "g = (command, r)"
      by (cases g)
    have t: "tokenize line = tokenize_loop [command] r"
      by (simp add: tokenize_def Some g)
    show ?thesis
    proof (cases "tokenize_loop [command] r")
      case (Inl e)
      then show ?thesis
        using tokenize_loop_errors [OF Inl] t by simp
    next
      case (Inr toks)
      have "length toks \<le> length line"
        using tokenize_loop_count [OF Inr] WORD_RE_match_length [of line command r] Some g
        by simp
      then show ?thesis
        using Inr t by simp
    qed
  qed
next
  show "tokenize line = Inr tokens \<longleftrightarrow>
       begins_with_command line
       \<and> (\<exists>args. tokens = first_word line # args \<and> parameters (parsed_text line) args)"
  proof (cases "begins_with_command line")
    case False
    then have "WORD_RE_match line = None"
      by (simp add: WORD_RE_match_None_iff)
    then show ?thesis
      using False by (simp add: tokenize_def)
  next
    case True
    have t: "tokenize line = tokenize_loop [first_word line] (parsed_text line)"
      by (simp add: tokenize_def WORD_RE_match_begins [OF True])
    show ?thesis
    proof
      assume "tokenize line = Inr tokens"
      then have "tokenize_loop [first_word line] (parsed_text line) = Inr tokens"
        by (simp add: t)
      then have "\<exists>vs. tokens = [first_word line] @ vs \<and> parameters (parsed_text line) vs"
        using newline_free_parsed_text by (rule parameters_tokenize_loop)
      then show "begins_with_command line
         \<and> (\<exists>args. tokens = first_word line # args \<and> parameters (parsed_text line) args)"
        using True by simp
    next
      assume "begins_with_command line
         \<and> (\<exists>args. tokens = first_word line # args \<and> parameters (parsed_text line) args)"
      then obtain args where a: "tokens = first_word line # args"
        "parameters (parsed_text line) args"
        by blast
      show "tokenize line = Inr tokens"
        using tokenize_loop_parameters [OF a(2) newline_free_parsed_text, of "[first_word line]"]
        by (simp add: t a(1))
    qed
  qed
next
  show "NEWLINE \<notin> set line \<longrightarrow>
       line = first_word line @ takeWhile is_space (dropWhile (\<lambda>c. \<not> is_space c) line)
                @ parsed_text line"
    by (simp add: parsed_text_whole first_word_def after_command_def)
qed

theorem tokenize_total_deterministic_witness:
  "PARAM_RE_match (ustr ''a b'') = Some (Some (ustr ''a''), None, ustr ''b'')
   \<and> length (ustr ''b'') < length (ustr ''a b'')
   \<and> NEWLINE \<notin> set (ustr ''cmd a '' @ DQUOTE # ustr ''b c'' @ [DQUOTE])
   \<and> tokenize (ustr ''cmd a '' @ DQUOTE # ustr ''b c'' @ [DQUOTE])
       = Inr [ustr ''cmd'', ustr ''a'', ustr ''b c'']
   \<and> begins_with_command (ustr ''cmd a '' @ DQUOTE # ustr ''b c'' @ [DQUOTE])
   \<and> parameters (ustr ''a '' @ DQUOTE # ustr ''b c'' @ [DQUOTE]) [ustr ''a'', ustr ''b c'']
   \<and> ustr ''cmd a '' @ DQUOTE # ustr ''b c'' @ [DQUOTE]
       = ustr ''cmd'' @ ustr '' '' @ (ustr ''a '' @ DQUOTE # ustr ''b c'' @ [DQUOTE])
   \<and> tokenize (ustr ''cmd x '' @ DQUOTE # ustr ''abc'') = Inl Invalid_parameter
   \<and> \<not> parameters (ustr ''x '' @ DQUOTE # ustr ''abc'') [ustr ''x'']"
proof -
  let ?L = "ustr ''cmd a '' @ DQUOTE # ustr ''b c'' @ [DQUOTE]"
  let ?M = "ustr ''cmd x '' @ DQUOTE # ustr ''abc''"
  have m: "PARAM_RE_match (ustr ''a b'') = Some (Some (ustr ''a''), None, ustr ''b'')"
    by code_simp
  have n: "NEWLINE \<notin> set ?L"
    by code_simp
  have t: "tokenize ?L = Inr [ustr ''cmd'', ustr ''a'', ustr ''b c'']"
    by code_simp
  have fw: "first_word ?L = ustr ''cmd''" "first_word ?M = ustr ''cmd''"
    by code_simp+
  have pt: "parsed_text ?L = ustr ''a '' @ DQUOTE # ustr ''b c'' @ [DQUOTE]"
    "parsed_text ?M = ustr ''x '' @ DQUOTE # ustr ''abc''"
    by code_simp+
  have sp: "takeWhile is_space (dropWhile (\<lambda>c. \<not> is_space c) ?L) = ustr '' ''"
    by code_simp
  have t2: "tokenize ?M = Inl Invalid_parameter"
    by code_simp
  have b2: "begins_with_command ?M"
    by code_simp
  note T = tokenize_total_deterministic
    [of "ustr ''a b''" "Some (ustr ''a'')" None "ustr ''b''" ?L "[ustr ''cmd'', ustr ''a'', ustr ''b c'']"]
  have c1: "length (ustr ''b'') < length (ustr ''a b'')"
    using T m by blast
  have c2: "begins_with_command ?L"
    and c3: "parameters (ustr ''a '' @ DQUOTE # ustr ''b c'' @ [DQUOTE]) [ustr ''a'', ustr ''b c'']"
    using T t unfolding fw pt by auto
  have c4: "?L = ustr ''cmd'' @ ustr '' '' @ (ustr ''a '' @ DQUOTE # ustr ''b c'' @ [DQUOTE])"
    using T n unfolding fw pt sp by blast
  have c5: "\<not> parameters (ustr ''x '' @ DQUOTE # ustr ''abc'') [ustr ''x'']"
    using tokenize_total_deterministic
      [of "[]" None None "[]" ?M "[ustr ''cmd'', ustr ''x'']"] t2 b2
    unfolding fw pt by auto
  show ?thesis
    using m n t t2 c1 c2 c3 c4 c5 by blast
qed

section \<open>Registration of request handlers\<close>

text \<open>
  \<^verbatim>\<open>MpdCommand = namedtuple('MpdCommand', ['name', 'auth_required'])\<close>: the two
  arguments of the constructor are the name and the flag.
\<close>

datatype MpdCommand = MpdCommand ustring bool

text \<open>
  The two globals of the module: the set \<^verbatim>\<open>mpd_commands\<close> and the dictionary
  \<^verbatim>\<open>request_handlers\<close> from compiled patterns to handlers. The dictionary is an
  association list with one entry per key. Where a new key goes in the list is
  a choice of this representation only: the dictionary has no order of its own,
  and no property below is about the order of the list.
  \<open>'p\<close> is the type of compiled patterns, \<open>'h\<close> of handlers.
\<close>

record ('p, 'h) globals =
  mpd_commands :: "MpdCommand set"
  request_handlers :: "('p \<times> 'h) list"

text \<open>\<^verbatim>\<open>key in d\<close> and \<^verbatim>\<open>d[key] = value\<close>\<close>

definition dict_contains :: "('k \<times> 'v) list \<Rightarrow> 'k \<Rightarrow> bool" where
  "dict_contains d k = (k \<in> fst ` set d)"

definition dict_set :: "('k \<times> 'v) list \<Rightarrow> 'k \<Rightarrow> 'v \<Rightarrow> ('k \<times> 'v) list" where
  "dict_set d k v =
     (if dict_contains d k then map (\<lambda>(k', v'). if k' = k then (k', v) else (k', v')) d
      else d @ [(k, v)])"

text \<open>\<^verbatim>\<open>[a-z_]\<close>\<close>

definition is_command_char :: "uchar \<Rightarrow> bool" where
  "is_command_char c = (is_lower c \<or> c = 0x5F)"

text \<open>
  \<^verbatim>\<open>re.search('([a-z_]+)', pattern)\<close>, then \<^verbatim>\<open>match.group()\<close>: the search stops at
  the first position where a character of the class stands and the greedy
  repetition takes the whole run from there.
\<close>

definition search_command_name :: "ustring \<Rightarrow> ustring option" where
  "search_command_name pattern =
     (case dropWhile (\<lambda>c. \<not> is_command_char c) pattern of
        [] \<Rightarrow> None
      | c # cs \<Rightarrow> Some (takeWhile is_command_char (c # cs)))"

text \<open>
  What a registration can raise: the error of \<^verbatim>\<open>re.compile\<close> on a pattern that
  is no regular expression, and the \<^verbatim>\<open>ValueError\<close> (``Tried to redefine handler'')
  for a pattern that is registered already.
\<close>

datatype registration_error = Regex_error | Duplicate_pattern

text \<open>
  \<^verbatim>\<open>handle_request(pattern, auth_required)(func)\<close> on the globals \<open>g\<close>. The result
  is the exception raised, if any, and the globals as the call leaves them.
  \<open>re_compile\<close> stands for \<^verbatim>\<open>re.compile\<close> with the flags \<^verbatim>\<open>re.UNICODE | re.VERBOSE\<close>,
  None when it raises. The flag \<open>auth\<close> is \<^verbatim>\<open>auth_required\<close>, True when the caller
  leaves it out. The rewriting of the handler's docstring is left out.
\<close>

definition handle_request ::
  "(ustring \<Rightarrow> 'p option) \<Rightarrow> ustring \<Rightarrow> bool \<Rightarrow> 'h \<Rightarrow> ('p, 'h) globals
   \<Rightarrow> registration_error option \<times> ('p, 'h) globals" where
  "handle_request re_compile pattern auth func g =
     (let g1 = (case search_command_name pattern of
                  Some name \<Rightarrow> g\<lparr>mpd_commands := insert (MpdCommand name auth) (mpd_commands g)\<rparr>
                | None \<Rightarrow> g)
      in case re_compile pattern of
           None \<Rightarrow> (Some Regex_error, g1)
         | Some compiled_pattern \<Rightarrow>
             if dict_contains (request_handlers g1) compiled_pattern
             then (Some Duplicate_pattern, g1)
             else (None, g1\<lparr>request_handlers :=
                               dict_set (request_handlers g1) compiled_pattern func\<rparr>))"

text \<open>
  The registrations of the protocol modules, one decorator after the other as
  \<^verbatim>\<open>load_protocol_modules\<close> imports them; an exception ends the run.
\<close>

fun handle_requests ::
  "(ustring \<Rightarrow> 'p option) \<Rightarrow> (ustring \<times> bool \<times> 'h) list \<Rightarrow> ('p, 'h) globals
   \<Rightarrow> registration_error option \<times> ('p, 'h) globals" where
  "handle_requests re_compile [] g = (None, g)"
| "handle_requests re_compile ((pattern, auth, func) # rest) g =
     (case handle_request re_compile pattern auth func g of
        (Some e, g') \<Rightarrow> (Some e, g')
      | (None, g') \<Rightarrow> handle_requests re_compile rest g')"

definition empty_globals :: "('p, 'h) globals" where
  "empty_globals = \<lparr>mpd_commands = {}, request_handlers = []\<rparr>"

section \<open>Properties of the registration\<close>

lemma mpd_commands_handle_request:
  "mpd_commands (snd (handle_request re_compile pattern auth func g)) =
     (case search_command_name pattern of
        None \<Rightarrow> mpd_commands g
      | Some name \<Rightarrow> insert (MpdCommand name auth) (mpd_commands g))"
  by (simp add: handle_request_def Let_def split: option.splits)

lemma handle_request_success:
  assumes "handle_request re_compile pattern auth func g = (None, g')"
  obtains compiled_pattern where "re_compile pattern = Some compiled_pattern"
    "\<not> dict_contains (request_handlers g) compiled_pattern"
    "request_handlers g' = request_handlers g @ [(compiled_pattern, func)]"
  using assms
  by (auto simp: handle_request_def Let_def dict_set_def split: option.splits if_splits)

lemma handle_request_duplicate:
  assumes "re_compile pattern = Some compiled_pattern"
    and "dict_contains (request_handlers g) compiled_pattern"
  shows "handle_request re_compile pattern auth func g =
     (Some Duplicate_pattern,
      g\<lparr>mpd_commands := (case search_command_name pattern of
                            None \<Rightarrow> mpd_commands g
                          | Some name \<Rightarrow> insert (MpdCommand name auth) (mpd_commands g))\<rparr>)"
  using assms by (simp add: handle_request_def Let_def split: option.splits)

lemma map_of_append_new:
  "\<not> dict_contains d k \<Longrightarrow> map_of (d @ [(k, v)]) k = Some v"
  by (simp add: dict_contains_def map_add_Some_iff map_of_eq_None_iff)

subsection \<open>Registering a pattern twice\<close>

text \<open>
  The command is added to \<^verbatim>\<open>mpd_commands\<close> before the pattern is looked up in
  \<^verbatim>\<open>request_handlers\<close>: a second registration of \<^verbatim>\<open>ping\<close> with the other flag
  raises, and leaves a second command in the set.
\<close>

theorem duplicate_changes_commands_counterexample:
  "handle_request Some (ustr ''ping'') True (1::nat) empty_globals
     = (None, \<lparr>mpd_commands = {MpdCommand (ustr ''ping'') True},
               request_handlers = [(ustr ''ping'', 1)]\<rparr>)
   \<and> handle_request Some (ustr ''ping'') False (2::nat)
        \<lparr>mpd_commands = {MpdCommand (ustr ''ping'') True}, request_handlers = [(ustr ''ping'', 1)]\<rparr>
     = (Some Duplicate_pattern,
        \<lparr>mpd_commands = {MpdCommand (ustr ''ping'') False, MpdCommand (ustr ''ping'') True},
         request_handlers = [(ustr ''ping'', 1)]\<rparr>)
   \<and> {MpdCommand (ustr ''ping'') False, MpdCommand (ustr ''ping'') True}
       \<noteq> {MpdCommand (ustr ''ping'') True}"
proof -
  have n: "search_command_name (ustr ''ping'') = Some (ustr ''ping'')"
    by code_simp
  show ?thesis
    by (simp add: handle_request_def n empty_globals_def dict_contains_def dict_set_def)
qed

text \<open>
  Claim C2, amended. After a pattern has been registered with the handler \<open>f\<close>,
  registering the same pattern again, whatever the handler \<open>h\<close> and the flag,
  raises the duplicate-pattern error and leaves the table of handlers as it was,
  the pattern still mapped to \<open>f\<close>; with the flag of the first registration the
  set of commands is left as it was too, so that the globals are unchanged.
\<close>

theorem duplicate_pattern_rejected:
  assumes "handle_request re_compile pattern auth f g = (None, g1)"
  shows "\<exists>compiled_pattern. re_compile pattern = Some compiled_pattern
     \<and> map_of (request_handlers g1) compiled_pattern = Some f
     \<and> handle_request re_compile pattern auth h g1 = (Some Duplicate_pattern, g1)
     \<and> fst (handle_request re_compile pattern auth' h g1) = Some Duplicate_pattern
     \<and> request_handlers (snd (handle_request re_compile pattern auth' h g1)) = request_handlers g1"
proof -
  obtain cp where cp: "re_compile pattern = Some cp"
    and new: "\<not> dict_contains (request_handlers g) cp"
    and rh: "request_handlers g1 = request_handlers g @ [(cp, f)]"
    using assms by (rule handle_request_success)
  have c: "dict_contains (request_handlers g1) cp"
    by (simp add: rh dict_contains_def)
  have m: "map_of (request_handlers g1) cp = Some f"
    unfolding rh by (rule map_of_append_new [OF new])
  have "mpd_commands g1 = mpd_commands (snd (handle_request re_compile pattern auth f g))"
    by (simp add: assms)
  then have mc: "mpd_commands g1 =
     (case search_command_name pattern of
        None \<Rightarrow> mpd_commands g
      | Some name \<Rightarrow> insert (MpdCommand name auth) (mpd_commands g))"
    by (simp only: mpd_commands_handle_request)
  have dup: "handle_request re_compile pattern a h g1 =
     (Some Duplicate_pattern,
      g1\<lparr>mpd_commands := (case search_command_name pattern of
                            None \<Rightarrow> mpd_commands g1
                          | Some name \<Rightarrow> insert (MpdCommand name a) (mpd_commands g1))\<rparr>)" for a
    using cp c by (rule handle_request_duplicate)
  have same: "handle_request re_compile pattern auth h g1 = (Some Duplicate_pattern, g1)"
    by (simp add: dup mc insert_absorb2 split: option.splits)
  show ?thesis
    using cp m same by (simp add: dup)
qed

theorem duplicate_pattern_rejected_witness:
  "handle_request Some (ustr ''ping'') True (1::nat) empty_globals
     = (None, \<lparr>mpd_commands = {MpdCommand (ustr ''ping'') True},
               request_handlers = [(ustr ''ping'', 1)]\<rparr>)
   \<and> (\<exists>compiled_pattern. Some (ustr ''ping'') = Some compiled_pattern
     \<and> map_of [(ustr ''ping'', 1::nat)] compiled_pattern = Some 1
     \<and> handle_request Some (ustr ''ping'') True (2::nat)
          \<lparr>mpd_commands = {MpdCommand (ustr ''ping'') True}, request_handlers = [(ustr ''ping'', 1)]\<rparr>
        = (Some Duplicate_pattern,
          \<lparr>mpd_commands = {MpdCommand (ustr ''ping'') True}, request_handlers = [(ustr ''ping'', 1)]\<rparr>))"
proof -
  have n: "search_command_name (ustr ''ping'') = Some (ustr ''ping'')"
    by code_simp
  have first: "handle_request Some (ustr ''ping'') True (1::nat) empty_globals
     = (None, \<lparr>mpd_commands = {MpdCommand (ustr ''ping'') True},
               request_handlers = [(ustr ''ping'', 1)]\<rparr>)"
    by (simp add: handle_request_def n empty_globals_def dict_contains_def dict_set_def)
  show ?thesis
    using duplicate_pattern_rejected [OF first, of 2 True] first by auto
qed

lemma mpd_commands_handle_requests:
  assumes "list_all (\<lambda>(pattern, auth', func). search_command_name pattern = Some name \<and> auth' = auth) regs"
  shows "mpd_commands (snd (handle_requests re_compile regs g)) =
     (if regs = [] then mpd_commands g else insert (MpdCommand name auth) (mpd_commands g))"
  using assms
proof (induction regs arbitrary: g)
  case Nil
  then show ?case by simp
next
  case (Cons r regs)
  obtain pattern auth' func where r: "r = (pattern, auth', func)"
    by (cases r)
  have n: "search_command_name pattern = Some name" and a: "auth' = auth"
    using Cons.prems by (simp_all add: r)
  obtain e g' where h: "handle_request re_compile pattern auth func g = (e, g')"
    by (cases "handle_request re_compile pattern auth func g")
  have g': "mpd_commands g' = insert (MpdCommand name auth) (mpd_commands g)"
    using mpd_commands_handle_request [of re_compile pattern auth func g] by (simp add: h n)
  show ?case
  proof (cases e)
    case None
    have "mpd_commands (snd (handle_requests re_compile regs g')) =
        (if regs = [] then mpd_commands g' else insert (MpdCommand name auth) (mpd_commands g'))"
      using Cons.IH [of g'] Cons.prems by simp
    then show ?thesis
      by (simp add: r a h None g')
  next
    case (Some err)
    then show ?thesis
      by (simp add: r a h g')
  qed
qed

subsection \<open>The set of commands\<close>

text \<open>
  Claim C9. Registering patterns that derive the same name with the same flag,
  any number of times, leaves the set of commands that registering one of them
  once leaves: the earlier set with the one command added.
\<close>

theorem command_registration_idempotent:
  assumes "search_command_name pattern = Some name"
    and "list_all (\<lambda>(pattern', auth', func'). search_command_name pattern' = Some name \<and> auth' = auth) others"
  shows "mpd_commands (snd (handle_requests re_compile ((pattern, auth, func) # others) g))
       = mpd_commands (snd (handle_request re_compile pattern auth func g))
     \<and> mpd_commands (snd (handle_request re_compile pattern auth func g))
       = insert (MpdCommand name auth) (mpd_commands g)"
proof -
  have "list_all (\<lambda>(pattern', auth', func'). search_command_name pattern' = Some name \<and> auth' = auth)
      ((pattern, auth, func) # others)"
    using assms by simp
  then have "mpd_commands (snd (handle_requests re_compile ((pattern, auth, func) # others) g))
      = insert (MpdCommand name auth) (mpd_commands g)"
    by (simp only: mpd_commands_handle_requests list.distinct if_False)
  then show ?thesis
    by (simp add: mpd_commands_handle_request assms(1))
qed

theorem command_registration_idempotent_witness:
  "search_command_name (ustr ''play$'') = Some (ustr ''play'')
   \<and> list_all (\<lambda>(pattern', auth', func'). search_command_name pattern' = Some (ustr ''play'') \<and> auth' = True)
       [(ustr ''play [0-9]+$'', True, 2::nat), (ustr ''play$'', True, 3)]
   \<and> mpd_commands (snd (handle_requests Some
        [(ustr ''play$'', True, 1::nat), (ustr ''play [0-9]+$'', True, 2), (ustr ''play$'', True, 3)]
        empty_globals))
     = {MpdCommand (ustr ''play'') True}
   \<and> mpd_commands (snd (handle_request Some (ustr ''play$'') True (1::nat) empty_globals))
     = {MpdCommand (ustr ''play'') True}"
proof -
  have n: "search_command_name (ustr ''play$'') = Some (ustr ''play'')"
    by code_simp
  have m: "list_all (\<lambda>(pattern', auth', func'). search_command_name pattern' = Some (ustr ''play'') \<and> auth' = True)
       [(ustr ''play [0-9]+$'', True, 2::nat), (ustr ''play$'', True, 3)]"
    by code_simp
  have e: "mpd_commands (empty_globals :: (ustring, nat) globals) = {}"
    by (simp add: empty_globals_def)
  from command_registration_idempotent [OF n m, of Some 1 empty_globals, unfolded e] n m
  show ?thesis
    by blast
qed

lemma dropWhile_Cons_head: "dropWhile P xs = y # ys \<Longrightarrow> \<not> P y"
  by (metis hd_dropWhile list.sel(1) list.distinct(1))

lemma search_command_name_None_iff:
  "search_command_name pattern = None \<longleftrightarrow> (\<forall>c \<in> set pattern. \<not> is_command_char c)"
proof (cases "dropWhile (\<lambda>c. \<not> is_command_char c) pattern")
  case Nil
  then have "\<forall>c \<in> set pattern. \<not> is_command_char c"
    using dropWhile_eq_Nil_conv [of "\<lambda>c. \<not> is_command_char c" pattern] by blast
  then show ?thesis
    by (simp add: search_command_name_def Nil)
next
  case (Cons c cs)
  then have "\<not> (\<forall>c \<in> set pattern. \<not> is_command_char c)"
    using dropWhile_eq_Nil_conv [of "\<lambda>c. \<not> is_command_char c" pattern] by auto
  then show ?thesis
    by (simp add: search_command_name_def Cons)
qed

lemma search_command_name_Some:
  assumes "search_command_name pattern = Some name"
  shows "\<exists>before after. pattern = before @ name @ after
      \<and> list_all (\<lambda>c. \<not> is_command_char c) before
      \<and> name \<noteq> [] \<and> list_all is_command_char name
      \<and> (case after of [] \<Rightarrow> True | c # cs \<Rightarrow> \<not> is_command_char c)"
proof -
  let ?before = "takeWhile (\<lambda>c. \<not> is_command_char c) pattern"
  let ?rest = "dropWhile (\<lambda>c. \<not> is_command_char c) pattern"
  let ?after = "dropWhile is_command_char ?rest"
  obtain c cs where rest: "?rest = c # cs" and name: "name = takeWhile is_command_char ?rest"
    using assms by (auto simp: search_command_name_def split: list.splits)
  have "\<not> \<not> is_command_char c"
    using rest by (rule dropWhile_Cons_head)
  then have ne: "name \<noteq> []"
    by (simp add: name rest)
  have p: "pattern = ?before @ name @ ?after"
    by (simp add: name)
  have b: "list_all (\<lambda>c. \<not> is_command_char c) ?before"
    by (auto simp: list_all_iff dest: set_takeWhileD)
  have n: "list_all is_command_char name"
    by (auto simp: name list_all_iff dest: set_takeWhileD)
  have a: "case ?after of [] \<Rightarrow> True | c # cs \<Rightarrow> \<not> is_command_char c"
    by (auto split: list.splits dest: dropWhile_Cons_head)
  show ?thesis
    using p b ne n a by blast
qed

text \<open>
  Claim C10. A pattern without any lowercase letter or underscore adds nothing
  to the set of commands, and is still registered with its handler (when
  \<^verbatim>\<open>re.compile\<close> accepts it and it is not registered yet, the only ways for a
  registration to raise). Otherwise the name added is the first, leftmost,
  longest run of lowercase letters and underscores of the pattern source,
  wherever it stands; it holds no digit.
\<close>

theorem derived_command_name:
  "((\<forall>c \<in> set pattern. \<not> is_command_char c) \<longrightarrow>
      mpd_commands (snd (handle_request re_compile pattern auth func g)) = mpd_commands g
      \<and> (\<forall>compiled_pattern. re_compile pattern = Some compiled_pattern
            \<and> \<not> dict_contains (request_handlers g) compiled_pattern \<longrightarrow>
          handle_request re_compile pattern auth func g
            = (None, g\<lparr>request_handlers := request_handlers g @ [(compiled_pattern, func)]\<rparr>)))
   \<and> ((\<exists>c \<in> set pattern. is_command_char c) \<longrightarrow>
      (\<exists>before name after. pattern = before @ name @ after
         \<and> list_all (\<lambda>c. \<not> is_command_char c) before
         \<and> name \<noteq> [] \<and> list_all is_command_char name
         \<and> (case after of [] \<Rightarrow> True | c # cs \<Rightarrow> \<not> is_command_char c)
         \<and> mpd_commands (snd (handle_request re_compile pattern auth func g))
             = insert (MpdCommand name auth) (mpd_commands g)))
   \<and> (is_command_char d \<longrightarrow> \<not> (0x30 \<le> d \<and> d \<le> 0x39))"
proof (intro conjI impI allI)
  assume a: "\<forall>c \<in> set pattern. \<not> is_command_char c"
  then have n: "search_command_name pattern = None"
    by (simp add: search_command_name_None_iff)
  show "mpd_commands (snd (handle_request re_compile pattern auth func g)) = mpd_commands g"
    by (simp add: mpd_commands_handle_request n)
  fix compiled_pattern
  assume "re_compile pattern = Some compiled_pattern
      \<and> \<not> dict_contains (request_handlers g) compiled_pattern"
  then show "handle_request re_compile pattern auth func g
      = (None, g\<lparr>request_handlers := request_handlers g @ [(compiled_pattern, func)]\<rparr>)"
    by (simp add: handle_request_def n dict_set_def)
next
  assume "\<exists>c \<in> set pattern. is_command_char c"
  then obtain name where n: "search_command_name pattern = Some name"
    using search_command_name_None_iff [of pattern] by (cases "search_command_name pattern") auto
  have "mpd_commands (snd (handle_request re_compile pattern auth func g))
      = insert (MpdCommand name auth) (mpd_commands g)"
    by (simp add: mpd_commands_handle_request n)
  then show "\<exists>before name after. pattern = before @ name @ after
         \<and> list_all (\<lambda>c. \<not> is_command_char c) before
         \<and> name \<noteq> [] \<and> list_all is_command_char name
         \<and> (case after of [] \<Rightarrow> True | c # cs \<Rightarrow> \<not> is_command_char c)
         \<and> mpd_commands (snd (handle_request re_compile pattern auth func g))
             = insert (MpdCommand name auth) (mpd_commands g)"
    using search_command_name_Some [OF n] by blast
next
  assume "is_command_char d"
  then show "\<not> (0x30 \<le> d \<and> d \<le> 0x39)"
    by (auto simp: is_command_char_def is_lower_def)
qed

theorem derived_command_name_witness:
  "\<not> (\<exists>c \<in> set (ustr ''^[0-9]+$''). is_command_char c)
   \<and> Some (ustr ''^[0-9]+$'') = Some (ustr ''^[0-9]+$'')
   \<and> \<not> dict_contains (request_handlers (empty_globals :: (ustring, nat) globals)) (ustr ''^[0-9]+$'')
   \<and> handle_request Some (ustr ''^[0-9]+$'') True (7::nat) empty_globals
       = (None, \<lparr>mpd_commands = {}, request_handlers = [(ustr ''^[0-9]+$'', 7)]\<rparr>)
   \<and> (\<exists>c \<in> set (ustr ''^2add3id x$''). is_command_char c)
   \<and> (\<exists>before name after. ustr ''^2add3id x$'' = before @ name @ after
         \<and> list_all (\<lambda>c. \<not> is_command_char c) before
         \<and> name \<noteq> [] \<and> list_all is_command_char name
         \<and> (case after of [] \<Rightarrow> True | c # cs \<Rightarrow> \<not> is_command_char c)
         \<and> mpd_commands (snd (handle_request Some (ustr ''^2add3id x$'') True (7::nat) empty_globals))
             = insert (MpdCommand name True) (mpd_commands (empty_globals :: (ustring, nat) globals)))
   \<and> search_command_name (ustr ''^2add3id x$'') = Some (ustr ''add'')
   \<and> is_command_char 0x61 \<and> \<not> (0x30 \<le> (0x61::nat) \<and> (0x61::nat) \<le> 0x39)"
proof -
  have a: "\<forall>c \<in> set (ustr ''^[0-9]+$''). \<not> is_command_char c"
    by code_simp
  have a': "\<not> (\<exists>c \<in> set (ustr ''^[0-9]+$''). is_command_char c)"
    using a by blast
  have b: "\<exists>c \<in> set (ustr ''^2add3id x$''). is_command_char c"
    by code_simp
  have n: "search_command_name (ustr ''^2add3id x$'') = Some (ustr ''add'')"
    by code_simp
  have c: "is_command_char 0x61"
    by code_simp
  have d: "\<not> dict_contains (request_handlers (empty_globals :: (ustring, nat) globals)) (ustr ''^[0-9]+$'')"
    by (simp add: empty_globals_def dict_contains_def)
  have e: "(empty_globals :: (ustring, nat) globals)
        \<lparr>request_handlers := request_handlers empty_globals @ [(ustr ''^[0-9]+$'', 7)]\<rparr>
      = \<lparr>mpd_commands = {}, request_handlers = [(ustr ''^[0-9]+$'', 7)]\<rparr>"
    by (simp add: empty_globals_def)
  note T1 = derived_command_name [of "ustr ''^[0-9]+$''" Some True "7::nat" empty_globals 0,
      THEN conjunct1, THEN mp, OF a, THEN conjunct2, THEN spec, of "ustr ''^[0-9]+$''", THEN mp]
  have t1: "handle_request Some (ustr ''^[0-9]+$'') True (7::nat) empty_globals
       = (None, \<lparr>mpd_commands = {}, request_handlers = [(ustr ''^[0-9]+$'', 7)]\<rparr>)"
    using T1 [OF conjI [OF refl d]] unfolding e .
  note t2 = derived_command_name [of "ustr ''^2add3id x$''" Some True "7::nat" empty_globals 0,
      THEN conjunct2, THEN conjunct1, THEN mp, OF b]
  note t3 = derived_command_name [of "[]" Some True "7::nat" empty_globals "0x61",
      THEN conjunct2, THEN conjunct2, THEN mp, OF c]
  show ?thesis
    apply (intro conjI)
            apply (rule a')
           apply (rule refl)
          apply (rule d)
         apply (rule t1)
        apply (rule b)
       apply (rule t2)
      apply (rule n)
     apply (rule c)
    apply (rule t3)
    done
qed

end
